theory Spec2Isabelle
  imports Main "HOL-Library.Product_Lexorder" "HOL-Library.Multiset"
begin

unbundle bit_operations_syntax

section \<open>Errors and constants of \<open>sqlite_index.py\<close>\<close>

text \<open>
  The Python exceptions the modelled code can raise. A raise is the \<open>Inl\<close> branch of a
  sum; a loop that never ends is the value \<open>None\<close> of an enclosing option.
\<close>

datatype error = ValueError | OverflowError | IndexError | AttributeError | TypeError | IntegrityError

definition PAGE_SIZE :: int where
  "PAGE_SIZE = 512"

definition SEPARATOR :: int where
  "SEPARATOR = 0xFF"

section \<open>The posting-list codec: class \<open>DocSet\<close>\<close>

text \<open>
  \<open>_docs_list\<close> is a \<open>defaultdict(list)\<close>: a dictionary in insertion order from a
  docid to the list of its positions. It is an association list here, the keys in the
  order of their first insertion. Python integers are unbounded: \<open>int\<close>.
\<close>

type_synonym DocSet = "(int \<times> int list) list"

definition DocSet_init :: DocSet where
  "DocSet_init = []"

text \<open>\<open>append\<close>: \<open>self._docs_list[docid].append(position)\<close>.\<close>

fun docset_append :: "DocSet \<Rightarrow> int \<Rightarrow> int \<Rightarrow> DocSet" where
  "docset_append [] docid position = [(docid, [position])]"
| "docset_append ((k, vs) # rest) docid position =
     (if k = docid then (k, vs @ [position]) # rest
      else (k, vs) # docset_append rest docid position)"

text \<open>\<open>__len__\<close>: the number of keys of the dictionary.\<close>

definition docset_len :: "DocSet \<Rightarrow> nat" where
  "docset_len ds = length ds"

text \<open>
  The inner \<open>while True\<close> loop of \<open>delta_encode\<close>, for one difference \<open>doc\<close>. On a
  negative \<open>doc\<close> the shift \<open>doc >>= 7\<close> never reaches zero and the loop never ends;
  the function is partial, \<open>None\<close> standing for a loop that does not return. The bytes
  appended are \<open>b\<close> in \<open>0..127\<close> and \<open>b | 0x80\<close> in \<open>128..255\<close>, so the append to the
  \<open>array('B')\<close> cannot overflow.
\<close>

partial_function (option) encode_number :: "int \<Rightarrow> int list \<Rightarrow> int list option" where
  "encode_number doc result =
     (let b = doc AND 0x7F; doc' = drop_bit 7 doc
      in if doc' \<noteq> 0 then encode_number doc' (result @ [b OR 0x80])
         else Some (result @ [b]))"

declare encode_number.simps [code]

text \<open>The \<open>for doc in ordered\<close> loop of \<open>delta_encode\<close>, with \<open>prev_doc\<close> and \<open>result\<close>.\<close>

fun delta_encode_loop :: "int \<Rightarrow> int list \<Rightarrow> int list \<Rightarrow> int list option" where
  "delta_encode_loop prev_doc [] result = Some result"
| "delta_encode_loop prev_doc (doc # ordered) result =
     (case encode_number (doc - prev_doc) result of
        None \<Rightarrow> None
      | Some result' \<Rightarrow> delta_encode_loop doc ordered result')"

definition delta_encode :: "int list \<Rightarrow> int list option" where
  "delta_encode ordered = delta_encode_loop 0 ordered []"

text \<open>
  The \<open>for b in ordered\<close> loop of \<open>delta_decode\<close>, with its four variables
  \<open>result\<close>, \<open>prev_doc\<close>, \<open>doc\<close> and \<open>shift\<close>.
\<close>

fun delta_decode_loop :: "int list \<Rightarrow> int list \<Rightarrow> int \<Rightarrow> int \<Rightarrow> nat \<Rightarrow> int list" where
  "delta_decode_loop [] result prev_doc doc shift = result"
| "delta_decode_loop (b # ordered) result prev_doc doc shift =
     (let doc' = doc OR push_bit shift (b AND 0x7F); shift' = shift + 7
      in if b AND 0x80 = 0
         then delta_decode_loop ordered (result @ [prev_doc + doc']) (prev_doc + doc') 0 0
         else delta_decode_loop ordered result prev_doc doc' shift')"

definition delta_decode :: "int list \<Rightarrow> int list" where
  "delta_decode ordered = delta_decode_loop ordered [] 0 0 0"

text \<open>
  \<open>array.array("B", xs)\<close>: every item must be an unsigned byte, otherwise the
  constructor raises OverflowError.
\<close>

definition array_B :: "int list \<Rightarrow> error + int list" where
  "array_B xs = (if list_all (\<lambda>x. 0 \<le> x \<and> x \<le> 255) xs then Inr xs else Inl OverflowError)"

text \<open>The pairs \<open>(key, value)\<close> that \<open>encode\<close> collects from the dictionary.\<close>

definition docset_pairs :: "DocSet \<Rightarrow> (int \<times> int) list" where
  "docset_pairs ds = concat (map (\<lambda>(key, vals). map (\<lambda>v. (key, v)) vals) ds)"

text \<open>
  What \<open>encode\<close> returns and \<open>decode\<close> takes: a \<open>bytes\<close> object, or a \<open>str\<close>. The
  two are different types in Python 3 (\<open>"" == b""\<close> is false).
\<close>

datatype encoded = Bytes "int list" | Str string

text \<open>
  \<open>encode\<close>. On the empty dictionary it returns the empty \<open>str\<close>, \<open>""\<close>. Otherwise
  the list of pairs is sorted as Python sorts tuples, by docid and then by position.
  The docids are delta-encoded before the positions are checked, as in the source. The
  result is \<open>None\<close> when \<open>delta_encode\<close> does not return, \<open>Inl\<close> of the error raised,
  or \<open>Inr\<close> of the value returned.
\<close>

definition encode :: "DocSet \<Rightarrow> (error + encoded) option" where
  "encode ds =
     (if ds = [] then Some (Inr (Str []))
      else
        let docs_list = sort (docset_pairs ds);
            docs = map fst docs_list
        in case delta_encode docs of
             None \<Rightarrow> None
           | Some docs_enc \<Rightarrow>
               let position = map snd docs_list
               in if list_ex (\<lambda>x. x \<ge> SEPARATOR) position then Some (Inl ValueError)
                  else (case array_B (position @ [SEPARATOR]) of
                          Inl e \<Rightarrow> Some (Inl e)
                        | Inr position_bytes \<Rightarrow>
                            Some (Inr (Bytes (position_bytes @ docs_enc)))))"

text \<open>\<open>bytes.index\<close>: the first index of a byte, ValueError when it is absent.\<close>

fun bytes_index :: "int list \<Rightarrow> int \<Rightarrow> error + nat" where
  "bytes_index [] v = Inl ValueError"
| "bytes_index (b # bs) v =
     (if b = v then Inr 0
      else (case bytes_index bs v of Inl e \<Rightarrow> Inl e | Inr i \<Rightarrow> Inr (Suc i)))"

text \<open>
  \<open>decode\<close>; \<open>zip\<close> stops at the shorter of the docids and the positions. On a
  \<open>str\<close> of more than one character, \<open>encoded.index(255)\<close> raises TypeError.
\<close>

definition decode :: "encoded \<Rightarrow> error + DocSet" where
  "decode encoded =
     (case encoded of
        Str s \<Rightarrow> (if length s > 1 then Inl TypeError else Inr DocSet_init)
      | Bytes bs \<Rightarrow>
          (if length bs > 1 then
             (case bytes_index bs SEPARATOR of
                Inl e \<Rightarrow> Inl e
              | Inr limit \<Rightarrow>
                  let docsid = delta_decode (drop (limit + 1) bs);
                      positions = take limit bs
                  in Inr (fold (\<lambda>(docid, position) ds. docset_append ds docid position)
                            (zip docsid positions) DocSet_init))
           else Inr DocSet_init))"

text \<open>
  The byte format as the specification words it, for comparison with \<open>delta_encode\<close>:
  a number is written seven bits per byte, low-order group first, the high bit of a byte
  set when more bytes follow; a sequence is written as its successive differences,
  starting from a previous value of zero.
\<close>

function spec_varint :: "int \<Rightarrow> int list" where
  "spec_varint d = (if d < 128 then [d] else (d mod 128 + 128) # spec_varint (d div 128))"
  by pat_completeness auto
termination
  by (relation "measure nat") auto

declare spec_varint.simps [simp del]

fun spec_deltas :: "int \<Rightarrow> int list \<Rightarrow> int list" where
  "spec_deltas prev [] = []"
| "spec_deltas prev (x # xs) = (x - prev) # spec_deltas x xs"

text \<open>
  A DocSet as the code can build one: the empty DocSet after a sequence of
  \<open>append(docid, position)\<close> calls, in order.
\<close>

definition docset_of_appends :: "(int \<times> int) list \<Rightarrow> DocSet" where
  "docset_of_appends ps =
     fold (\<lambda>(docid, position) ds. docset_append ds docid position) ps DocSet_init"

text \<open>The positions stored for a docid, \<open>[]\<close> when the docid is not a key.\<close>

definition positions_of :: "DocSet \<Rightarrow> int \<Rightarrow> int list" where
  "positions_of ds docid = (case map_of ds docid of None \<Rightarrow> [] | Some vs \<Rightarrow> vs)"

section \<open>Documents and the filename rule\<close>

text \<open>
  A document record is a Python list whose fields are None, a string or a number: the
  filename (or None), the title, payload fields, and the score appended by the build.
\<close>

datatype field = FNone | FStr string | FNum int

type_synonym doc_data = "field list"

text \<open>One item of the build source: \<open>(words, page_score, data)\<close>.\<close>

type_synonym source_entry = "string list \<times> int \<times> doc_data"

text \<open>\<open>os.path.join(dir3, arch)\<close> on a POSIX system.\<close>

definition path_join :: "string \<Rightarrow> string \<Rightarrow> string" where
  "path_join dir3 arch =
     (if arch \<noteq> [] \<and> hd arch = CHR ''/'' then arch
      else if dir3 = [] \<or> last dir3 = CHR ''/'' then dir3 @ arch
      else dir3 @ ''/'' @ arch)"

text \<open>
  \<open>to_filename\<close>. Two parts of it are not modelled and are parameters: \<open>upper\<close>, the
  result of \<open>str.upper\<close> on a one-character string (Unicode case mapping, which may
  give several characters), and \<open>get_path_file\<close>, the function of the module
  \<open>to3dirs\<close>, which is not among the sources.
\<close>

definition to_filename ::
    "(char \<Rightarrow> string) \<Rightarrow> (string \<Rightarrow> string \<times> string) \<Rightarrow> string \<Rightarrow> error + string" where
  "to_filename upper get_path_file title =
     (let tt = map (\<lambda>c. if c = CHR '' '' then CHR ''_'' else c) title
      in if length tt \<ge> 2 then
           (let tt' = upper (hd tt) @ tl tt; (dir3, arch) = get_path_file tt'
            in Inr (path_join dir3 arch))
         else if length tt = 1 then
           (let tt' = upper (hd tt); (dir3, arch) = get_path_file tt'
            in Inr (path_join dir3 arch))
         else Inl ValueError)"

section \<open>The database\<close>

text \<open>
  The two tables of \<open>create_database\<close>, their rows in insertion order.
  \<open>tokens(word, docsets)\<close> holds in \<open>docsets\<close> the value the adapter \<open>encode\<close>
  returned, a blob for \<open>bytes\<close> and a text for a \<open>str\<close>.
  \<open>docs(pageid, word_quants, data)\<close> holds in \<open>data\<close> the list of records of a page:
  the source stores \<open>compress(pickle.dumps(docs_data))\<close> and reads it back with
  \<open>decompress_data\<close>, and the two library calls are taken to be inverse.
\<close>

record database =
  tokens :: "(string \<times> encoded) list"
  docs :: "(int \<times> int list \<times> doc_data list) list"

definition create_database :: database where
  "create_database = \<lparr>tokens = [], docs = []\<rparr>"

text \<open>\<open>INSERT INTO docs\<close>: \<open>pageid\<close> is the primary key, a second row with it is refused.\<close>

definition insert_docs :: "database \<Rightarrow> int \<times> int list \<times> doc_data list \<Rightarrow> error + database" where
  "insert_docs database row =
     (if fst row \<in> set (map fst (docs database)) then Inl IntegrityError
      else Inr (database\<lparr>docs := docs database @ [row]\<rparr>))"

definition insert_tokens :: "database \<Rightarrow> string \<times> encoded \<Rightarrow> database" where
  "insert_tokens database row = database\<lparr>tokens := tokens database @ [row]\<rparr>"

section \<open>The builder: \<open>Index.create\<close>\<close>

text \<open>The fields \<open>count\<close> and \<open>buffer\<close> of an \<open>SQLmany\<close>.\<close>

record 'a sqlmany =
  sm_count :: int
  sm_buffer :: "'a list"

definition sqlmany_init :: "'a sqlmany" where
  "sqlmany_init = \<lparr>sm_count = 0, sm_buffer = []\<rparr>"

text \<open>
  \<open>Compressed.persist\<close>: the word counts go into an \<open>array("B")\<close>, which raises
  OverflowError on a count above 255; the page id is \<open>(count - 1) // PAGE_SIZE\<close>.
\<close>

definition compressed_persist ::
    "(nat \<times> doc_data) sqlmany \<Rightarrow> database \<Rightarrow> error + database" where
  "compressed_persist self database =
     (case array_B (map (\<lambda>(word_quant, data). int word_quant) (sm_buffer self)) of
        Inl e \<Rightarrow> Inl e
      | Inr word_quants \<Rightarrow>
          let docs_data = map (\<lambda>(word_quant, data). data) (sm_buffer self);
              page_id = (sm_count self - 1) div PAGE_SIZE
          in insert_docs database (page_id, word_quants, docs_data))"

text \<open>\<open>SQLmany.append\<close> on the documents table; it returns \<open>count - 1\<close>.\<close>

definition compressed_append ::
    "(nat \<times> doc_data) \<Rightarrow> (nat \<times> doc_data) sqlmany \<Rightarrow> database
      \<Rightarrow> error + (int \<times> (nat \<times> doc_data) sqlmany \<times> database)" where
  "compressed_append data self database =
     (let self1 = self\<lparr>sm_buffer := sm_buffer self @ [data], sm_count := sm_count self + 1\<rparr>
      in if sm_count self1 mod PAGE_SIZE = 0 then
           (case compressed_persist self1 database of
              Inl e \<Rightarrow> Inl e
            | Inr database' \<Rightarrow> Inr (sm_count self1 - 1, self1\<lparr>sm_buffer := []\<rparr>, database'))
         else Inr (sm_count self1 - 1, self1, database))"

definition compressed_finish ::
    "(nat \<times> doc_data) sqlmany \<Rightarrow> database \<Rightarrow> error + database" where
  "compressed_finish self database =
     (if sm_buffer self \<noteq> [] then compressed_persist self database else Inr database)"

text \<open>
  \<open>SQLmany.persist\<close> on the tokens table: \<open>executemany\<close> adapts each DocSet of the
  buffer with \<open>encode\<close> and inserts the row.
\<close>

fun tokens_persist :: "(string \<times> DocSet) list \<Rightarrow> database \<Rightarrow> (error + database) option" where
  "tokens_persist [] database = Some (Inr database)"
| "tokens_persist ((word, docs_list) # buffer) database =
     (case encode docs_list of
        None \<Rightarrow> None
      | Some (Inl e) \<Rightarrow> Some (Inl e)
      | Some (Inr docsets) \<Rightarrow> tokens_persist buffer (insert_tokens database (word, docsets)))"

definition tokens_append ::
    "(string \<times> DocSet) \<Rightarrow> (string \<times> DocSet) sqlmany \<Rightarrow> database
      \<Rightarrow> (error + (int \<times> (string \<times> DocSet) sqlmany \<times> database)) option" where
  "tokens_append data self database =
     (let self1 = self\<lparr>sm_buffer := sm_buffer self @ [data], sm_count := sm_count self + 1\<rparr>
      in if sm_count self1 mod PAGE_SIZE = 0 then
           (case tokens_persist (sm_buffer self1) database of
              None \<Rightarrow> None
            | Some (Inl e) \<Rightarrow> Some (Inl e)
            | Some (Inr database') \<Rightarrow>
                Some (Inr (sm_count self1 - 1, self1\<lparr>sm_buffer := []\<rparr>, database')))
         else Some (Inr (sm_count self1 - 1, self1, database)))"

definition tokens_finish ::
    "(string \<times> DocSet) sqlmany \<Rightarrow> database \<Rightarrow> (error + database) option" where
  "tokens_finish self database =
     (if sm_buffer self \<noteq> [] then tokens_persist (sm_buffer self) database
      else Some (Inr database))"

text \<open>
  \<open>order_source\<close>: the source is grouped by score in \<open>ordered_source\<close>, a
  \<open>defaultdict(list)\<close>, after the filename of a record is replaced by None when it is
  the one \<open>to_filename\<close> computes from the title. \<open>data[0]\<close> and \<open>data[1]\<close> raise
  IndexError on a shorter record, and \<open>to_filename\<close> raises AttributeError on a title
  that is not a string.
\<close>

fun bucket_append ::
    "(int \<times> source_entry list) list \<Rightarrow> int \<Rightarrow> source_entry \<Rightarrow> (int \<times> source_entry list) list" where
  "bucket_append [] page_score v = [(page_score, [v])]"
| "bucket_append ((k, vs) # rest) page_score v =
     (if k = page_score then (k, vs @ [v]) # rest
      else (k, vs) # bucket_append rest page_score v)"

fun order_source_loop ::
    "(char \<Rightarrow> string) \<Rightarrow> (string \<Rightarrow> string \<times> string) \<Rightarrow> source_entry list
      \<Rightarrow> (int \<times> source_entry list) list \<Rightarrow> error + (int \<times> source_entry list) list" where
  "order_source_loop upper get_path_file [] ordered_source = Inr ordered_source"
| "order_source_loop upper get_path_file ((words, page_score, data) # source) ordered_source =
     (case data of
        [] \<Rightarrow> Inl IndexError
      | [f0] \<Rightarrow> Inl IndexError
      | f0 # f1 # payload \<Rightarrow>
          (case f1 of
             FStr title \<Rightarrow>
               (case to_filename upper get_path_file title of
                  Inl e \<Rightarrow> Inl e
                | Inr fname \<Rightarrow>
                    let data' = (if f0 = FStr fname then FNone # f1 # payload else data)
                    in order_source_loop upper get_path_file source
                         (bucket_append ordered_source page_score (words, page_score, data')))
           | _ \<Rightarrow> Inl AttributeError))"

definition order_source ::
    "(char \<Rightarrow> string) \<Rightarrow> (string \<Rightarrow> string \<times> string) \<Rightarrow> source_entry list
      \<Rightarrow> error + ((int \<times> source_entry list) list \<times> nat)" where
  "order_source upper get_path_file source =
     (case order_source_loop upper get_path_file source [] of
        Inl e \<Rightarrow> Inl e
      | Inr ordered_source \<Rightarrow> Inr (ordered_source, length source - 1))"

text \<open>\<open>gen_ordered\<close>: the buckets by descending score, each in its insertion order.\<close>

definition gen_ordered :: "(int \<times> source_entry list) list \<Rightarrow> source_entry list" where
  "gen_ordered ordered_source =
     concat (map (\<lambda>score. case map_of ordered_source score of None \<Rightarrow> [] | Some vs \<Rightarrow> vs)
               (rev (sort (map fst ordered_source))))"

text \<open>
  \<open>add_docs_keys\<close>. \<open>idx_dict\<close> is a \<open>defaultdict(DocSet)\<close>; the loop over
  \<open>enumerate(words)\<close> appends \<open>(docid, idx)\<close> to the DocSet of each word. The warning
  printed on a score above the previous one changes nothing and is left out.
\<close>

fun idx_dict_append ::
    "(string \<times> DocSet) list \<Rightarrow> string \<Rightarrow> int \<Rightarrow> int \<Rightarrow> (string \<times> DocSet) list" where
  "idx_dict_append [] word docid idx = [(word, docset_append DocSet_init docid idx)]"
| "idx_dict_append ((w, ds) # rest) word docid idx =
     (if w = word then (w, docset_append ds docid idx) # rest
      else (w, ds) # idx_dict_append rest word docid idx)"

fun add_words ::
    "(string \<times> DocSet) list \<Rightarrow> int \<Rightarrow> nat \<Rightarrow> string list \<Rightarrow> (string \<times> DocSet) list" where
  "add_words idx_dict docid idx [] = idx_dict"
| "add_words idx_dict docid idx (word # words) =
     add_words (idx_dict_append idx_dict word docid (int idx)) docid (Suc idx) words"

fun add_docs_loop ::
    "source_entry list \<Rightarrow> (string \<times> DocSet) list \<Rightarrow> (nat \<times> doc_data) sqlmany \<Rightarrow> database
      \<Rightarrow> error + ((string \<times> DocSet) list \<times> (nat \<times> doc_data) sqlmany \<times> database)" where
  "add_docs_loop [] idx_dict docs_table database = Inr (idx_dict, docs_table, database)"
| "add_docs_loop ((words, page_score, data) # source) idx_dict docs_table database =
     (case compressed_append (length words, data @ [FNum page_score]) docs_table database of
        Inl e \<Rightarrow> Inl e
      | Inr (docid, docs_table', database') \<Rightarrow>
          add_docs_loop source (add_words idx_dict docid 0 words) docs_table' database')"

definition add_docs_keys ::
    "source_entry list \<Rightarrow> database \<Rightarrow> error + ((string \<times> DocSet) list \<times> database)" where
  "add_docs_keys source database =
     (case add_docs_loop source [] sqlmany_init database of
        Inl e \<Rightarrow> Inl e
      | Inr (idx_dict, docs_table, database') \<Rightarrow>
          (case compressed_finish docs_table database' of
             Inl e \<Rightarrow> Inl e
           | Inr database'' \<Rightarrow> Inr (idx_dict, database'')))"

text \<open>
  \<open>add_tokens_to_db\<close>: \<open>dict_stats["Indexed"]\<close> grows by \<open>len(docs_list)\<close> for each
  word, and the pair goes to the tokens table.
\<close>

fun add_tokens_loop ::
    "(string \<times> DocSet) list \<Rightarrow> nat \<Rightarrow> (string \<times> DocSet) sqlmany \<Rightarrow> database
      \<Rightarrow> (error + (nat \<times> (string \<times> DocSet) sqlmany \<times> database)) option" where
  "add_tokens_loop [] indexed token_store database = Some (Inr (indexed, token_store, database))"
| "add_tokens_loop ((word, docs_list) # rest) indexed token_store database =
     (case tokens_append (word, docs_list) token_store database of
        None \<Rightarrow> None
      | Some (Inl e) \<Rightarrow> Some (Inl e)
      | Some (Inr (i, token_store', database')) \<Rightarrow>
          add_tokens_loop rest (indexed + docset_len docs_list) token_store' database')"

definition add_tokens_to_db ::
    "(string \<times> DocSet) list \<Rightarrow> database \<Rightarrow> (error + (nat \<times> database)) option" where
  "add_tokens_to_db idx_dict database =
     (case add_tokens_loop idx_dict 0 sqlmany_init database of
        None \<Rightarrow> None
      | Some (Inl e) \<Rightarrow> Some (Inl e)
      | Some (Inr (indexed, token_store, database')) \<Rightarrow>
          (case tokens_finish token_store database' of
             None \<Rightarrow> None
           | Some (Inl e) \<Rightarrow> Some (Inl e)
           | Some (Inr database'') \<Rightarrow> Some (Inr (indexed, database''))))"

text \<open>
  \<open>Index.create\<close>: the value returned, \<open>dict_stats["Indexed"]\<close>, and the database
  written. \<open>create_indexes\<close> and the statistics change neither.
\<close>

definition create ::
    "(char \<Rightarrow> string) \<Rightarrow> (string \<Rightarrow> string \<times> string) \<Rightarrow> source_entry list
      \<Rightarrow> (error + (nat \<times> database)) option" where
  "create upper get_path_file source =
     (case order_source upper get_path_file source of
        Inl e \<Rightarrow> Some (Inl e)
      | Inr (ordered_source, quantity) \<Rightarrow>
          (case add_docs_keys (gen_ordered ordered_source) create_database of
             Inl e \<Rightarrow> Some (Inl e)
           | Inr (idx_dict, database) \<Rightarrow> add_tokens_to_db idx_dict database))"

section \<open>The reader: class \<open>Index\<close>\<close>

text \<open>
  An open index: the database and the \<open>lru_cache(1000)\<close> of \<open>_get_page\<close>, the most
  recently used page first. The cache keeps the list objects \<open>_get_page\<close> returned,
  which \<open>get_doc\<close> changes in place.
\<close>

record index =
  db :: database
  page_cache :: "(int \<times> doc_data list option) list"

definition index_init :: "database \<Rightarrow> index" where
  "index_init database = \<lparr>db = database, page_cache = []\<rparr>"

definition index_keys :: "index \<Rightarrow> string list" where
  "index_keys self = map fst (tokens (db self))"

text \<open>
  \<open>items\<close>: the converter \<open>decode\<close> receives the stored value as \<open>bytes\<close>, for a
  text its characters as bytes.
\<close>

definition column_bytes :: "encoded \<Rightarrow> int list" where
  "column_bytes v = (case v of Bytes bs \<Rightarrow> bs | Str s \<Rightarrow> map (\<lambda>c. int (of_char c)) s)"

definition index_items :: "index \<Rightarrow> (string \<times> (error + DocSet)) list" where
  "index_items self =
     map (\<lambda>(word, docsets). (word, decode (Bytes (column_bytes docsets)))) (tokens (db self))"

definition index_values :: "index \<Rightarrow> doc_data list" where
  "index_values self = concat (map (\<lambda>(pageid, word_quants, data). data) (sort_key fst (docs (db self))))"

text \<open>\<open>__len__\<close>: on an empty table \<open>fetchone\<close> gives None and \<open>row[1]\<close> raises TypeError.\<close>

definition index_len :: "index \<Rightarrow> error + int" where
  "index_len self =
     (case rev (sort_key fst (docs (db self))) of
        [] \<Rightarrow> Inl TypeError
      | (pageid, word_quants, data) # _ \<Rightarrow> Inr (pageid * PAGE_SIZE + int (length data)))"

definition contains :: "index \<Rightarrow> string \<Rightarrow> bool" where
  "contains self key = (key \<in> set (map fst (tokens (db self))))"

text \<open>\<open>_get_page\<close>, with its cache: a hit moves the entry to the front, a miss reads the
  table, stores the result (None too) and drops the oldest entry beyond 1000.\<close>

definition get_page :: "index \<Rightarrow> int \<Rightarrow> doc_data list option \<times> index" where
  "get_page self pageid =
     (case map_of (page_cache self) pageid of
        Some v \<Rightarrow>
          (v, self\<lparr>page_cache := (pageid, v) # filter (\<lambda>e. fst e \<noteq> pageid) (page_cache self)\<rparr>)
      | None \<Rightarrow>
          (let v = map_option snd (map_of (docs (db self)) pageid)
           in (v, self\<lparr>page_cache := take 1000 ((pageid, v) # page_cache self)\<rparr>)))"

text \<open>
  \<open>get_doc\<close>. \<open>data[rel_position]\<close> raises IndexError beyond the end of the page.
  The assignment \<open>row[0] = to_filename(row[1])\<close> changes the row inside the cached
  page.
\<close>

definition get_doc ::
    "(char \<Rightarrow> string) \<Rightarrow> (string \<Rightarrow> string \<times> string) \<Rightarrow> index \<Rightarrow> int
      \<Rightarrow> (error + doc_data option) \<times> index" where
  "get_doc upper get_path_file self docid =
     (let page_id = docid div PAGE_SIZE; rel_position = nat (docid mod PAGE_SIZE);
          (data, self1) = get_page self page_id
      in case data of
           None \<Rightarrow> (Inr None, self1)
         | Some rows \<Rightarrow>
             if rows = [] then (Inr None, self1)
             else if rel_position \<ge> length rows then (Inl IndexError, self1)
             else
               (case rows ! rel_position of
                  [] \<Rightarrow> (Inl IndexError, self1)
                | f0 # others \<Rightarrow>
                    if f0 = FNone then
                      (case others of
                         [] \<Rightarrow> (Inl IndexError, self1)
                       | FStr title # payload \<Rightarrow>
                           (case to_filename upper get_path_file title of
                              Inl e \<Rightarrow> (Inl e, self1)
                            | Inr fname \<Rightarrow>
                                let row = FStr fname # others;
                                    rows' = rows[rel_position := row]
                                in (Inr (Some row),
                                    self1\<lparr>page_cache :=
                                      map (\<lambda>(k, v). if k = page_id then (k, Some rows') else (k, v))
                                        (page_cache self1)\<rparr>))
                       | _ \<Rightarrow> (Inl AttributeError, self1))
                    else (Inr (Some (f0 # others)), self1)))"

text \<open>
  \<open>random\<close>: \<open>randint\<close> stands for \<open>random.randint\<close>, whose result for the bounds
  \<open>a \<le> b\<close> lies between them; it raises ValueError on an empty range.
\<close>

definition index_random ::
    "(char \<Rightarrow> string) \<Rightarrow> (string \<Rightarrow> string \<times> string) \<Rightarrow> (int \<Rightarrow> int \<Rightarrow> int) \<Rightarrow> index
      \<Rightarrow> (error + doc_data option) \<times> index" where
  "index_random upper get_path_file randint self =
     (case index_len self of
        Inl e \<Rightarrow> (Inl e, self)
      | Inr n \<Rightarrow>
          if n - 1 < 0 then (Inl ValueError, self)
          else get_doc upper get_path_file self (randint 0 (n - 1)))"

section \<open>The example build of the specification\<close>

text \<open>The three documents of the end-to-end example, and the database their build writes.\<close>

definition example_source :: "source_entry list" where
  "example_source =
     [([''cat'', ''dog''], 10, [FNone, FStr ''Cat'']),
      ([''dog'', ''bird''], 5, [FNone, FStr ''Dog'']),
      ([''cat''], 20, [FNone, FStr ''Cat2''])]"

definition example_database :: database where
  "example_database =
     \<lparr>tokens = [(''cat'', Bytes [0, 0, 255, 0, 1]), (''dog'', Bytes [1, 0, 255, 1, 1]),
                (''bird'', Bytes [1, 255, 2])],
      docs = [(0, [1, 2, 2],
               [[FNone, FStr ''Cat2'', FNum 20], [FNone, FStr ''Cat'', FNum 10],
                [FNone, FStr ''Dog'', FNum 5]])]\<rparr>"

text \<open>
  The rows of the documents table after a number of appends, for the proofs: page
  \<open>i\<close> holds the \<open>i\<close>-th block of 512 rows appended.
\<close>

definition page_row :: "(nat \<times> doc_data) list \<Rightarrow> nat \<Rightarrow> int \<times> int list \<times> doc_data list" where
  "page_row rows i =
     (int i, map (\<lambda>(word_quant, data). int word_quant) (take 512 (drop (512 * i) rows)),
      map (\<lambda>(word_quant, data). data) (take 512 (drop (512 * i) rows)))"

definition docs_inv :: "(nat \<times> doc_data) list \<Rightarrow> (nat \<times> doc_data) sqlmany \<Rightarrow> database \<Rightarrow> bool" where
  "docs_inv rows docs_table database \<longleftrightarrow>
     sm_count docs_table = int (length rows)
     \<and> sm_buffer docs_table = drop (512 * (length rows div 512)) rows
     \<and> docs database = map (page_row rows) [0 ..< length rows div 512]"

definition row_of :: "source_entry \<Rightarrow> nat \<times> doc_data" where
  "row_of e = (case e of (words, page_score, data) \<Rightarrow> (length words, data @ [FNum page_score]))"

text \<open>A DocSet that \<open>encode\<close> turns into bytes.\<close>

definition encodable :: "DocSet \<Rightarrow> bool" where
  "encodable ds \<longleftrightarrow> (\<exists>bs. encode ds = Some (Inr bs))"

text \<open>
  A source entry \<open>order_source\<close> accepts: the record has a first field and a second
  one that is a non-empty string. And the entry as \<open>order_source\<close> stores it, the
  filename replaced by None when it is the one computed from the title.
\<close>

fun entry_ok :: "source_entry \<Rightarrow> bool" where
  "entry_ok (words, page_score, f0 # FStr title # payload) = (title \<noteq> [])"
| "entry_ok (words, page_score, data) = False"

definition norm_entry ::
    "(char \<Rightarrow> string) \<Rightarrow> (string \<Rightarrow> string \<times> string) \<Rightarrow> source_entry \<Rightarrow> source_entry" where
  "norm_entry upper get_path_file e =
     (case e of (words, page_score, data) \<Rightarrow>
        (case data of
           f0 # FStr title # payload \<Rightarrow>
             (case to_filename upper get_path_file title of
                Inl err \<Rightarrow> e
              | Inr fname \<Rightarrow>
                  if f0 = FStr fname then (words, page_score, FNone # FStr title # payload)
                  else e)
         | _ \<Rightarrow> e))"

text \<open>The dictionary \<open>ordered_source\<close> after the loop of \<open>order_source\<close> over accepted entries.\<close>

fun buckets ::
    "(char \<Rightarrow> string) \<Rightarrow> (string \<Rightarrow> string \<times> string) \<Rightarrow> source_entry list
      \<Rightarrow> (int \<times> source_entry list) list \<Rightarrow> (int \<times> source_entry list) list" where
  "buckets upper get_path_file [] os = os"
| "buckets upper get_path_file (e # source) os =
     buckets upper get_path_file source
       (bucket_append os (fst (snd e)) (norm_entry upper get_path_file e))"

text \<open>
  The record \<open>get_doc\<close> returns for a stored record: the filename computed from the
  title in place of a None.
\<close>

definition backfilled ::
    "(char \<Rightarrow> string) \<Rightarrow> (string \<Rightarrow> string \<times> string) \<Rightarrow> doc_data \<Rightarrow> doc_data" where
  "backfilled upper get_path_file row =
     (case row of
        FNone # FStr title # payload \<Rightarrow>
          (case to_filename upper get_path_file title of
             Inl e \<Rightarrow> row
           | Inr fname \<Rightarrow> FStr fname # FStr title # payload)
      | _ \<Rightarrow> row)"

text \<open>An index after a sequence of \<open>get_doc\<close> calls, whatever they returned.\<close>

fun get_docs ::
    "(char \<Rightarrow> string) \<Rightarrow> (string \<Rightarrow> string \<times> string) \<Rightarrow> index \<Rightarrow> int list \<Rightarrow> index" where
  "get_docs upper get_path_file self [] = self"
| "get_docs upper get_path_file self (docid # docids) =
     get_docs upper get_path_file (snd (get_doc upper get_path_file self docid)) docids"

text \<open>
  The cache is consistent with the table: a cached page is the stored page, some of
  its records with the filename filled in; a cached None is a page that is not stored.
\<close>

definition page_rel ::
    "(char \<Rightarrow> string) \<Rightarrow> (string \<Rightarrow> string \<times> string) \<Rightarrow> doc_data list \<Rightarrow> doc_data list \<Rightarrow> bool" where
  "page_rel upper get_path_file data rows =
     list_all2 (\<lambda>d r. r = d \<or> r = backfilled upper get_path_file d) data rows"

definition entry_rel ::
    "(char \<Rightarrow> string) \<Rightarrow> (string \<Rightarrow> string \<times> string) \<Rightarrow> database
      \<Rightarrow> int \<times> doc_data list option \<Rightarrow> bool" where
  "entry_rel upper get_path_file database e =
     (case map_of (docs database) (fst e) of
        None \<Rightarrow> snd e = None
      | Some (word_quants, data) \<Rightarrow>
          (case snd e of None \<Rightarrow> False | Some rows \<Rightarrow> page_rel upper get_path_file data rows))"

definition cache_ok ::
    "(char \<Rightarrow> string) \<Rightarrow> (string \<Rightarrow> string \<times> string) \<Rightarrow> index \<Rightarrow> bool" where
  "cache_ok upper get_path_file self =
     list_all (entry_rel upper get_path_file (db self)) (page_cache self)"

text \<open>The DocSet of a word in \<open>idx_dict\<close>, empty when the word is not a key.\<close>

definition idx_lookup :: "(string \<times> DocSet) list \<Rightarrow> string \<Rightarrow> DocSet" where
  "idx_lookup idx_dict word = (case map_of idx_dict word of None \<Rightarrow> [] | Some ds \<Rightarrow> ds)"

text \<open>A DocSet whose docids are non-negative and whose positions are between 0 and 254.\<close>

definition pairs_in_range :: "DocSet \<Rightarrow> bool" where
  "pairs_in_range ds = list_all (\<lambda>q. 0 \<le> fst q \<and> 0 \<le> snd q \<and> snd q < 255) (docset_pairs ds)"

section \<open>The delta codec\<close>

lemma and_127: "(d::int) AND 127 = take_bit 7 d"
  by (simp add: take_bit_eq_mask mask_eq_exp_minus_1)

lemma bit_128: "bit (128::int) n \<longleftrightarrow> n = 7"
proof -
  have "(128::int) = 2 ^ 7" by simp
  then show ?thesis by (simp only: bit_exp_iff) auto
qed

lemma or_128: "(take_bit 7 (d::int)) OR 128 = take_bit 7 d + 128"
  by (rule disjunctive_add [symmetric]) (auto simp: bit_simps bit_128)

lemma and_128_set: "(take_bit 7 (d::int) OR 128) AND 128 \<noteq> 0"
proof
  assume "(take_bit 7 d OR 128) AND 128 = 0"
  then have "bit ((take_bit 7 d OR 128) AND (128::int)) 7 = bit (0::int) 7" by simp
  then show False by (simp add: bit_simps bit_128)
qed

lemma and_128_clear: "(take_bit 7 (d::int)) AND 128 = 0"
  by (rule bit_eqI) (auto simp: bit_simps bit_128)

lemma or_128_and_127: "(take_bit 7 (d::int) OR 128) AND 127 = take_bit 7 d"
  by (rule bit_eqI) (auto simp: bit_simps bit_128 and_127)

lemma recombine: "take_bit 7 (d::int) OR push_bit 7 (drop_bit 7 d) = d"
proof -
  have "take_bit 7 d + push_bit 7 (drop_bit 7 d) = take_bit 7 d OR push_bit 7 (drop_bit 7 d)"
    by (rule disjunctive_add) (auto simp: bit_simps)
  then show ?thesis by (metis add.commute bits_ident)
qed

lemma encode_number_nonneg:
  "0 \<le> d \<Longrightarrow> encode_number d result = Some (result @ spec_varint d)"
proof (induction d arbitrary: result rule: spec_varint.induct)
  case (1 d)
  show ?case
  proof (cases "d < 128")
    case True
    with "1.prems" have "drop_bit 7 d = 0" "d AND 127 = d"
      by (simp_all add: drop_bit_eq_div and_127 take_bit_eq_mod)
    then show ?thesis using True
      by (subst encode_number.simps) (simp add: spec_varint.simps [of d])
  next
    case False
    with "1.prems" have nz: "drop_bit 7 d \<noteq> 0" and ge: "0 \<le> d div 128"
      by (simp_all add: drop_bit_eq_div)
    have b: "(d AND 127) OR 128 = d mod 128 + 128"
      using or_128 [of d] by (simp add: and_127 take_bit_eq_mod)
    have "encode_number d result = encode_number (d div 128) (result @ [d mod 128 + 128])"
      using nz b by (subst encode_number.simps) (simp add: drop_bit_eq_div)
    also have "\<dots> = Some ((result @ [d mod 128 + 128]) @ spec_varint (d div 128))"
      using False ge by (rule "1.IH")
    finally show ?thesis using False by (simp add: spec_varint.simps [of d])
  qed
qed

lemma delta_encode_loop_sorted:
  "sorted (prev # seq) \<Longrightarrow>
   delta_encode_loop prev seq result = Some (result @ concat (map spec_varint (spec_deltas prev seq)))"
proof (induction seq arbitrary: prev result)
  case Nil
  then show ?case by simp
next
  case (Cons x xs)
  then have "0 \<le> x - prev" and "sorted (x # xs)" by simp_all
  then show ?case using Cons.IH [of x] by (simp add: encode_number_nonneg)
qed

lemma decode_varint:
  "0 \<le> d \<Longrightarrow>
   delta_decode_loop (spec_varint d @ rest) result prev acc shift =
   delta_decode_loop rest (result @ [prev + (acc OR push_bit shift d)])
     (prev + (acc OR push_bit shift d)) 0 0"
proof (induction d arbitrary: acc shift rule: spec_varint.induct)
  case (1 d)
  show ?case
  proof (cases "d < 128")
    case True
    with "1.prems" have "take_bit 7 d = d" by (simp add: take_bit_eq_mod)
    then have "d AND 127 = d" "d AND 128 = 0"
      using and_127 [of d] and_128_clear [of d] by simp_all
    then show ?thesis using True by (simp add: spec_varint.simps [of d] Let_def)
  next
    case False
    with "1.prems" have ge: "0 \<le> d div 128" by simp
    let ?b = "d mod 128 + 128"
    have b: "?b = take_bit 7 d OR 128" using or_128 [of d] by (simp add: take_bit_eq_mod)
    have b1: "?b AND 127 = take_bit 7 d" unfolding b by (rule or_128_and_127)
    have b2: "?b AND 128 \<noteq> 0" unfolding b by (rule and_128_set)
    have comb: "(acc OR push_bit shift (take_bit 7 d)) OR push_bit (shift + 7) (d div 128)
        = acc OR push_bit shift d"
    proof -
      have "push_bit (shift + 7) (d div 128) = push_bit shift (push_bit 7 (drop_bit 7 d))"
        by (simp add: push_bit_add drop_bit_eq_div add.commute)
      then have "(acc OR push_bit shift (take_bit 7 d)) OR push_bit (shift + 7) (d div 128)
        = acc OR push_bit shift (take_bit 7 d OR push_bit 7 (drop_bit 7 d))"
        by (simp add: push_bit_or or.assoc)
      then show ?thesis by (simp only: recombine)
    qed
    have "delta_decode_loop (spec_varint d @ rest) result prev acc shift
        = delta_decode_loop (spec_varint (d div 128) @ rest) result prev
            (acc OR push_bit shift (take_bit 7 d)) (shift + 7)"
      using False b1 b2 by (simp add: spec_varint.simps [of d] Let_def)
    also have "\<dots> = delta_decode_loop rest
        (result @ [prev + ((acc OR push_bit shift (take_bit 7 d)) OR push_bit (shift + 7) (d div 128))])
        (prev + ((acc OR push_bit shift (take_bit 7 d)) OR push_bit (shift + 7) (d div 128))) 0 0"
      using False ge by (rule "1.IH")
    finally show ?thesis by (simp only: comb)
  qed
qed

lemma delta_decode_loop_deltas:
  "sorted (prev # seq) \<Longrightarrow>
   delta_decode_loop (concat (map spec_varint (spec_deltas prev seq)) @ rest) result prev 0 0 =
   delta_decode_loop rest (result @ seq) (if seq = [] then prev else last seq) 0 0"
proof (induction seq arbitrary: prev result)
  case Nil
  then show ?case by simp
next
  case (Cons x xs)
  then have "0 \<le> x - prev" and "sorted (x # xs)" by simp_all
  then show ?case using Cons.IH [of x "result @ [x]"] by (simp add: decode_varint)
qed

lemma delta_roundtrip:
  assumes "sorted seq" and "\<forall>x\<in>set seq. 0 \<le> x"
  shows "delta_encode seq = Some (concat (map spec_varint (spec_deltas 0 seq)))"
    and "delta_decode (concat (map spec_varint (spec_deltas 0 seq))) = seq"
proof -
  from assms have s: "sorted (0 # seq)" by simp
  show "delta_encode seq = Some (concat (map spec_varint (spec_deltas 0 seq)))"
    using delta_encode_loop_sorted [OF s, of "[]"] by (simp add: delta_encode_def)
  show "delta_decode (concat (map spec_varint (spec_deltas 0 seq))) = seq"
    using delta_decode_loop_deltas [OF s, of "[]" "[]"] by (simp add: delta_decode_def)
qed

lemma encode_number_zero: "encode_number 0 result = Some (result @ [0])"
  using encode_number_nonneg [of 0 result] by (simp add: spec_varint.simps [of 0])

text \<open>
  Claim C7. For every non-decreasing sequence \<open>seq\<close> of non-negative integers,
  \<open>delta_encode\<close> returns, its result is the little-endian base-128 encoding with a
  continuation flag of the successive differences, and \<open>delta_decode\<close> of that result
  is \<open>seq\<close>; a value equal to the previous one adds the single byte zero.
\<close>

theorem delta_codec_roundtrip:
  assumes "sorted seq" and "\<forall>x\<in>set seq. 0 \<le> x"
  shows "\<exists>bs. delta_encode seq = Some bs
           \<and> bs = concat (map spec_varint (spec_deltas 0 seq))
           \<and> delta_decode bs = seq
           \<and> (\<forall>prev rest result. delta_encode_loop prev (prev # rest) result
                  = delta_encode_loop prev rest (result @ [0]))"
  using delta_roundtrip [OF assms] by (simp add: encode_number_zero)

theorem delta_codec_roundtrip_witness:
  "sorted [1, 1, 5, 300 :: int] \<and> list_all (\<lambda>x. 0 \<le> x) [1, 1, 5, 300 :: int]
   \<and> delta_encode [1, 1, 5, 300] = Some [1, 0, 4, 167, 2]
   \<and> delta_decode [1, 0, 4, 167, 2] = [1, 1, 5, 300]"
proof -
  have s: "sorted [1, 1, 5, 300 :: int]" by simp
  have n: "\<forall>x\<in>set [1, 1, 5, 300 :: int]. 0 \<le> x" by simp
  have v: "concat (map spec_varint (spec_deltas 0 [1, 1, 5, 300])) = [1, 0, 4, 167, 2]"
    by (simp add: spec_varint.simps)
  show ?thesis using delta_codec_roundtrip [OF s n] s n unfolding v by auto
qed

section \<open>The posting-list codec\<close>

lemma docset_of_appends_Nil [simp]: "docset_of_appends [] = []"
  by (simp add: docset_of_appends_def DocSet_init_def)

lemma docset_of_appends_snoc [simp]:
  "docset_of_appends (ps @ [(d, p)]) = docset_append (docset_of_appends ps) d p"
  by (simp add: docset_of_appends_def)

lemma positions_of_append:
  "positions_of (docset_append ds d p) d' =
     (if d' = d then positions_of ds d @ [p] else positions_of ds d')"
  by (induction ds d p rule: docset_append.induct) (auto simp: positions_of_def)

lemma positions_of_appends:
  "positions_of (docset_of_appends ps) d = map snd (filter (\<lambda>q. fst q = d) ps)"
proof (induction ps rule: rev_induct)
  case Nil
  then show ?case by (simp add: positions_of_def)
next
  case (snoc q ps)
  then show ?case by (cases q) (auto simp: positions_of_append)
qed

lemma keys_docset_append:
  "map fst (docset_append ds d p) =
     (if d \<in> set (map fst ds) then map fst ds else map fst ds @ [d])"
  by (induction ds d p rule: docset_append.induct) auto

lemma keys_docset_of_appends: "set (map fst (docset_of_appends ps)) = fst ` set ps"
proof (induction ps rule: rev_induct)
  case Nil
  then show ?case by simp
next
  case (snoc q ps)
  then show ?case by (cases q) (auto simp: keys_docset_append)
qed

lemma keys_sorted_docset_of_appends:
  "sorted (map fst ps) \<Longrightarrow> sorted_wrt (<) (map fst (docset_of_appends ps))"
proof (induction ps rule: rev_induct)
  case Nil
  then show ?case by simp
next
  case (snoc q ps)
  obtain d p where q: "q = (d, p)" by (cases q)
  from snoc.prems have s: "sorted (map fst ps)" and le: "\<forall>k\<in>fst ` set ps. k \<le> d"
    by (auto simp: q sorted_append)
  have IH: "sorted_wrt (<) (map fst (docset_of_appends ps))" using snoc.IH s by simp
  show ?case
  proof (cases "d \<in> set (map fst (docset_of_appends ps))")
    case True
    then show ?thesis using IH by (simp add: q keys_docset_append)
  next
    case False
    then have "\<forall>k\<in>set (map fst (docset_of_appends ps)). k < d"
      using le unfolding keys_docset_of_appends by force
    then show ?thesis using IH False
      by (simp add: q keys_docset_append sorted_wrt_append)
  qed
qed

lemma nonempty_docset_append:
  "\<forall>e\<in>set ds. snd e \<noteq> [] \<Longrightarrow> \<forall>e\<in>set (docset_append ds d p). snd e \<noteq> []"
  by (induction ds d p rule: docset_append.induct) auto

lemma nonempty_docset_of_appends: "\<forall>e\<in>set (docset_of_appends ps). snd e \<noteq> []"
proof (induction ps rule: rev_induct)
  case Nil
  then show ?case by simp
next
  case (snoc q ps)
  then show ?case by (cases q) (simp add: nonempty_docset_append)
qed

lemma mset_pairs_append:
  "mset (docset_pairs (docset_append ds d p)) = add_mset (d, p) (mset (docset_pairs ds))"
  by (induction ds d p rule: docset_append.induct) (auto simp: docset_pairs_def)

lemma mset_pairs_appends: "mset (docset_pairs (docset_of_appends ps)) = mset ps"
proof (induction ps rule: rev_induct)
  case Nil
  then show ?case by (simp add: docset_pairs_def)
next
  case (snoc q ps)
  then show ?case by (cases q) (simp add: mset_pairs_append)
qed

lemma sorted_map_fst: "sorted (L :: (int \<times> int) list) \<Longrightarrow> sorted (map fst L)"
  by (induction L) (auto simp: less_eq_prod_def)

lemma sorted_positions:
  "sorted (L :: (int \<times> int) list) \<Longrightarrow> sorted (map snd (filter (\<lambda>q. fst q = d) L))"
  by (induction L) (auto simp: less_eq_prod_def)

lemma bytes_index_sep:
  "v \<notin> set xs \<Longrightarrow> bytes_index (xs @ v # rest) v = Inr (length xs)"
  by (induction xs) auto

lemma encode_delta:
  assumes "\<forall>q\<in>set (docset_pairs ds). 0 \<le> fst q"
  shows "delta_encode (map fst (sort (docset_pairs ds)))
           = Some (concat (map spec_varint (spec_deltas 0 (map fst (sort (docset_pairs ds))))))"
    and "delta_decode (concat (map spec_varint (spec_deltas 0 (map fst (sort (docset_pairs ds))))))
           = map fst (sort (docset_pairs ds))"
proof -
  have s: "sorted (map fst (sort (docset_pairs ds)))" by (rule sorted_map_fst) simp
  have n: "\<forall>x\<in>set (map fst (sort (docset_pairs ds))). 0 \<le> x" using assms by simp
  show "delta_encode (map fst (sort (docset_pairs ds)))
           = Some (concat (map spec_varint (spec_deltas 0 (map fst (sort (docset_pairs ds))))))"
    by (rule delta_roundtrip(1) [OF s n])
  show "delta_decode (concat (map spec_varint (spec_deltas 0 (map fst (sort (docset_pairs ds))))))
           = map fst (sort (docset_pairs ds))"
    by (rule delta_roundtrip(2) [OF s n])
qed

lemma encode_invalid:
  assumes "ds \<noteq> []" and "\<forall>q\<in>set (docset_pairs ds). 0 \<le> fst q"
    and "\<exists>q\<in>set (docset_pairs ds). 255 \<le> snd q"
  shows "encode ds = Some (Inl ValueError)"
proof -
  have "list_ex (\<lambda>x. SEPARATOR \<le> x) (map snd (sort (docset_pairs ds)))"
    using assms(3) by (auto simp: list_ex_iff SEPARATOR_def)
  then show ?thesis using assms(1) encode_delta(1) [OF assms(2)]
    by (simp add: encode_def Let_def)
qed

lemma encode_valid:
  assumes "ds \<noteq> []" and "\<forall>q\<in>set (docset_pairs ds). 0 \<le> fst q"
    and "\<forall>q\<in>set (docset_pairs ds). 0 \<le> snd q \<and> snd q < 255"
  shows "encode ds = Some (Inr (Bytes (map snd (sort (docset_pairs ds)) @ 255 #
           concat (map spec_varint (spec_deltas 0 (map fst (sort (docset_pairs ds))))))))"
proof -
  have a: "\<not> list_ex (\<lambda>x. SEPARATOR \<le> x) (map snd (sort (docset_pairs ds)))"
    using assms(3) by (auto simp: list_ex_iff SEPARATOR_def)
  have b: "array_B (map snd (sort (docset_pairs ds)) @ [SEPARATOR])
             = Inr (map snd (sort (docset_pairs ds)) @ [255])"
    using assms(3) by (auto simp: array_B_def list_all_iff SEPARATOR_def)
  show ?thesis using assms(1) a b encode_delta(1) [OF assms(2)]
    by (simp add: encode_def Let_def)
qed

lemma decode_encoded:
  assumes "L \<noteq> []" and "\<forall>q\<in>set L. snd q \<noteq> 255" and "delta_decode enc = map fst L"
  shows "decode (Bytes (map snd L @ 255 # enc)) = Inr (docset_of_appends L)"
proof -
  have i: "bytes_index (map snd L @ 255 # enc) SEPARATOR = Inr (length (map snd L))"
    unfolding SEPARATOR_def using assms(2) by (intro bytes_index_sep) auto
  have z: "zip (map fst L) (map snd L) = L" by (simp add: zip_map_fst_snd)
  have "length (map snd L @ 255 # enc) > 1" using assms(1) by (cases L) auto
  then show ?thesis using i z assms(3)
    by (simp add: decode_def Let_def docset_of_appends_def)
qed

lemma pairs_empty_appends: "docset_of_appends ps = [] \<longleftrightarrow> ps = []"
proof
  assume "docset_of_appends ps = []"
  then have "mset (docset_pairs (docset_of_appends ps)) = {#}" by (simp add: docset_pairs_def)
  then show "ps = []" by (simp add: mset_pairs_appends)
qed simp

lemma set_pairs_appends: "set (docset_pairs (docset_of_appends ps)) = set ps"
  using mset_pairs_appends [of ps] by (rule mset_eq_setD)

lemma encode_single_pair:
  "encode (docset_of_appends [(0, 0)]) = Some (Inr (Bytes [0, 255, 0]))"
  by code_simp

text \<open>
  Claim C9. Decoding an empty or a one-byte input gives the empty DocSet. Encoding a
  DocSet to which nothing was appended does not give an empty byte sequence: it gives
  the empty \<open>str\<close>, where every other DocSet is encoded to \<open>bytes\<close>; \<open>decode\<close> takes
  that value to the empty DocSet all the same.
\<close>

theorem encode_empty_returns_str:
  "encode DocSet_init = Some (Inr (Str []))
   \<and> encode DocSet_init \<noteq> Some (Inr (Bytes []))
   \<and> encode (docset_of_appends [(0, 0)]) = Some (Inr (Bytes [0, 255, 0]))
   \<and> decode (Str []) = Inr DocSet_init
   \<and> decode (Bytes []) = Inr DocSet_init
   \<and> (\<forall>b. decode (Bytes [b]) = Inr DocSet_init)"
  using encode_single_pair by (simp add: encode_def decode_def DocSet_init_def)

text \<open>
  Claim C3. For a DocSet built by appends whose docids are non-negative (document ids
  are), \<open>encode\<close> raises the ValueError of the position check as soon as one appended
  position is 255 or more, and returns a value, raising nothing, when every position
  is between 0 and 254.
\<close>

theorem encode_position_limit:
  assumes "\<forall>q\<in>set ps. 0 \<le> fst q"
  shows "((\<exists>q\<in>set ps. 255 \<le> snd q) \<longrightarrow> encode (docset_of_appends ps) = Some (Inl ValueError))
       \<and> ((\<forall>q\<in>set ps. 0 \<le> snd q \<and> snd q < 255) \<longrightarrow>
            (\<exists>bs. encode (docset_of_appends ps) = Some (Inr bs)))"
proof (intro conjI impI)
  assume big: "\<exists>q\<in>set ps. 255 \<le> snd q"
  then have "ps \<noteq> []" by auto
  then have ne: "docset_of_appends ps \<noteq> []" by (simp add: pairs_empty_appends)
  show "encode (docset_of_appends ps) = Some (Inl ValueError)"
    using ne assms big by (intro encode_invalid) (simp_all add: set_pairs_appends)
next
  assume small: "\<forall>q\<in>set ps. 0 \<le> snd q \<and> snd q < 255"
  show "\<exists>bs. encode (docset_of_appends ps) = Some (Inr bs)"
  proof (cases "ps = []")
    case True
    then show ?thesis by (simp add: encode_def)
  next
    case False
    then have ne: "docset_of_appends ps \<noteq> []" by (simp add: pairs_empty_appends)
    have "encode (docset_of_appends ps) = Some (Inr (Bytes (map snd (sort (docset_pairs (docset_of_appends ps))) @ 255 #
           concat (map spec_varint (spec_deltas 0 (map fst (sort (docset_pairs (docset_of_appends ps)))))))))"
      using ne assms small by (intro encode_valid) (simp_all add: set_pairs_appends)
    then show ?thesis by blast
  qed
qed

theorem encode_position_limit_witness:
  "encode (docset_of_appends [(7, 2), (3, 255)]) = Some (Inl ValueError)
   \<and> (\<exists>bs. encode (docset_of_appends [(7, 2), (3, 1), (7, 0), (300, 4)]) = Some (Inr bs))"
  using encode_position_limit [of "[(7, 2), (3, 255)]"]
    encode_position_limit [of "[(7, 2), (3, 1), (7, 0), (300, 4)]"]
  by simp

text \<open>
  Claim C1. For a DocSet \<open>x\<close> built by any sequence of appends with non-negative
  docids and positions between 0 and 254, \<open>encode\<close> returns a value and \<open>decode\<close>
  of it returns a DocSet \<open>y\<close> that holds, for every docid, the same multiset of
  positions as \<open>x\<close>, in ascending order; the docids of \<open>y\<close> are in strictly ascending
  order, they are exactly the docids of \<open>x\<close>, and none has an empty position list.
\<close>

theorem docset_roundtrip:
  assumes "\<forall>q\<in>set ps. 0 \<le> fst q \<and> 0 \<le> snd q \<and> snd q < 255"
  shows "\<exists>bs y. encode (docset_of_appends ps) = Some (Inr bs) \<and> decode bs = Inr y
           \<and> (\<forall>d. mset (positions_of y d) = mset (positions_of (docset_of_appends ps) d)
                  \<and> sorted (positions_of y d))
           \<and> sorted_wrt (<) (map fst y)
           \<and> set (map fst y) = set (map fst (docset_of_appends ps))
           \<and> (\<forall>e\<in>set y. snd e \<noteq> [])"
proof (cases "ps = []")
  case True
  then show ?thesis by (simp add: encode_def decode_def DocSet_init_def positions_of_def)
next
  case False
  let ?x = "docset_of_appends ps"
  let ?L = "sort (docset_pairs ?x)"
  let ?enc = "concat (map spec_varint (spec_deltas 0 (map fst ?L)))"
  have ne: "?x \<noteq> []" using False by (simp add: pairs_empty_appends)
  have dom1: "\<forall>q\<in>set (docset_pairs ?x). 0 \<le> fst q"
    and dom2: "\<forall>q\<in>set (docset_pairs ?x). 0 \<le> snd q \<and> snd q < 255"
    using assms by (simp_all add: set_pairs_appends)
  have mL: "mset ?L = mset ps" by (simp add: mset_pairs_appends)
  have e: "encode ?x = Some (Inr (Bytes (map snd ?L @ 255 # ?enc)))"
    by (rule encode_valid [OF ne dom1 dom2])
  have Lne: "?L \<noteq> []" using mL False by (metis mset_zero_iff)
  have L255: "\<forall>q\<in>set ?L. snd q \<noteq> 255" using dom2 by auto
  have d: "decode (Bytes (map snd ?L @ 255 # ?enc)) = Inr (docset_of_appends ?L)"
    by (rule decode_encoded [OF Lne L255 encode_delta(2) [OF dom1]])
  have pos: "mset (positions_of (docset_of_appends ?L) d) = mset (positions_of ?x d)
      \<and> sorted (positions_of (docset_of_appends ?L) d)" for d
  proof
    have "mset (map snd (filter (\<lambda>q. fst q = d) ?L)) = image_mset snd (filter_mset (\<lambda>q. fst q = d) (mset ?L))"
      by simp
    also have "\<dots> = mset (map snd (filter (\<lambda>q. fst q = d) ps))"
      unfolding mL by simp
    finally show "mset (positions_of (docset_of_appends ?L) d) = mset (positions_of ?x d)"
      by (simp only: positions_of_appends)
    show "sorted (positions_of (docset_of_appends ?L) d)"
      unfolding positions_of_appends by (rule sorted_positions) simp
  qed
  have keys: "sorted_wrt (<) (map fst (docset_of_appends ?L))"
    by (rule keys_sorted_docset_of_appends, rule sorted_map_fst) simp
  have kset: "set (map fst (docset_of_appends ?L)) = set (map fst ?x)"
    unfolding keys_docset_of_appends using mset_eq_setD [OF mL] by simp
  show ?thesis using e d pos keys kset nonempty_docset_of_appends [of ?L] by blast
qed

theorem docset_roundtrip_witness:
  "\<exists>bs y. encode (docset_of_appends [(7, 2), (3, 1), (7, 0), (300, 4)]) = Some (Inr bs)
      \<and> decode bs = Inr y
      \<and> bs = Bytes [1, 0, 2, 4, 255, 3, 4, 0, 165, 2]
      \<and> y = [(3, [1]), (7, [0, 2]), (300, [4])]
      \<and> mset (positions_of y 7) = mset (positions_of (docset_of_appends [(7, 2), (3, 1), (7, 0), (300, 4)]) 7)
      \<and> sorted (positions_of y 7)
      \<and> sorted_wrt (<) (map fst y)"
proof -
  have e: "encode (docset_of_appends [(7, 2), (3, 1), (7, 0), (300, 4)])
      = Some (Inr (Bytes [1, 0, 2, 4, 255, 3, 4, 0, 165, 2]))"
    by code_simp
  have d: "decode (Bytes [1, 0, 2, 4, 255, 3, 4, 0, 165, 2])
      = Inr [(3, [1]), (7, [0, 2]), (300, [4])]"
    by code_simp
  from docset_roundtrip [of "[(7, 2), (3, 1), (7, 0), (300, 4)]"]
  obtain bs y where "encode (docset_of_appends [(7, 2), (3, 1), (7, 0), (300, 4)]) = Some (Inr bs)"
    and "decode bs = Inr y"
    and "\<forall>d. mset (positions_of y d) = mset (positions_of (docset_of_appends [(7, 2), (3, 1), (7, 0), (300, 4)]) d)
                  \<and> sorted (positions_of y d)"
    and "sorted_wrt (<) (map fst y)"
    by auto
  then show ?thesis using e d by auto
qed

section \<open>The index on the example\<close>

lemma to_filename_total:
  "title \<noteq> [] \<Longrightarrow> \<exists>fname. to_filename upper get_path_file title = Inr fname"
  by (cases title; cases "tl title") (auto simp: to_filename_def Let_def split: prod.splits)

lemma order_source_loop_FNone:
  assumes "title \<noteq> []"
  shows "order_source_loop upper get_path_file ((words, page_score, FNone # FStr title # payload) # source) os
       = order_source_loop upper get_path_file source
           (bucket_append os page_score (words, page_score, FNone # FStr title # payload))"
proof -
  from to_filename_total [OF assms] obtain fname
    where "to_filename upper get_path_file title = Inr fname" by blast
  then show ?thesis by simp
qed

lemma example_order:
  "order_source upper get_path_file example_source =
     Inr ([(10, [([''cat'', ''dog''], 10, [FNone, FStr ''Cat''])]),
           (5, [([''dog'', ''bird''], 5, [FNone, FStr ''Dog''])]),
           (20, [([''cat''], 20, [FNone, FStr ''Cat2''])])], 2)"
  by (simp add: order_source_def example_source_def order_source_loop_FNone
      del: order_source_loop.simps(2))

lemma example_emitted:
  "gen_ordered [(10, [([''cat'', ''dog''], 10, [FNone, FStr ''Cat''])]),
           (5, [([''dog'', ''bird''], 5, [FNone, FStr ''Dog''])]),
           (20, [([''cat''], 20, [FNone, FStr ''Cat2''])])]
   = [([''cat''], 20, [FNone, FStr ''Cat2'']),
      ([''cat'', ''dog''], 10, [FNone, FStr ''Cat'']),
      ([''dog'', ''bird''], 5, [FNone, FStr ''Dog''])]"
  by code_simp

lemma example_docs:
  "add_docs_keys [([''cat''], 20, [FNone, FStr ''Cat2'']),
      ([''cat'', ''dog''], 10, [FNone, FStr ''Cat'']),
      ([''dog'', ''bird''], 5, [FNone, FStr ''Dog''])] create_database
   = Inr ([(''cat'', [(0, [0]), (1, [0])]), (''dog'', [(1, [1]), (2, [0])]), (''bird'', [(2, [1])])],
          \<lparr>tokens = [], docs = [(0, [1, 2, 2],
               [[FNone, FStr ''Cat2'', FNum 20], [FNone, FStr ''Cat'', FNum 10],
                [FNone, FStr ''Dog'', FNum 5]])]\<rparr>)"
  by code_simp

lemma example_tokens:
  "add_tokens_to_db [(''cat'', [(0, [0]), (1, [0])]), (''dog'', [(1, [1]), (2, [0])]), (''bird'', [(2, [1])])]
          \<lparr>tokens = [], docs = [(0, [1, 2, 2],
               [[FNone, FStr ''Cat2'', FNum 20], [FNone, FStr ''Cat'', FNum 10],
                [FNone, FStr ''Dog'', FNum 5]])]\<rparr>
   = Some (Inr (5, example_database))"
  by code_simp

lemma example_create:
  "create upper get_path_file example_source = Some (Inr (5, example_database))"
  by (simp add: create_def example_order example_emitted example_docs example_tokens)

lemma example_keys: "index_keys (index_init example_database) = [''cat'', ''dog'', ''bird'']"
  by code_simp

lemma example_values: "index_values (index_init example_database) =
   [[FNone, FStr ''Cat2'', FNum 20], [FNone, FStr ''Cat'', FNum 10], [FNone, FStr ''Dog'', FNum 5]]"
  by code_simp

lemma example_items: "map_of (index_items (index_init example_database)) ''cat''
    = Some (Inr [(0, [0]), (1, [0])])"
  by code_simp

lemma example_get_doc:
  "\<exists>fname self'. get_doc upper get_path_file (index_init example_database) 0
      = (Inr (Some [FStr fname, FStr ''Cat2'', FNum 20]), self')"
proof -
  from to_filename_total [of "''Cat2''"] obtain fname
    where "to_filename upper get_path_file ''Cat2'' = Inr fname" by auto
  then show ?thesis
    by (simp add: get_doc_def get_page_def index_init_def example_database_def PAGE_SIZE_def Let_def)
qed

lemma example_get_doc_3:
  "fst (get_doc upper get_path_file (index_init example_database) 3) = Inl IndexError"
  by (simp add: get_doc_def get_page_def index_init_def example_database_def PAGE_SIZE_def Let_def)

lemma example_get_page:
  "fst (get_page (index_init example_database) 1) = None"
  by (simp add: get_page_def index_init_def example_database_def)

lemma example_get_doc_512:
  "fst (get_doc upper get_path_file (index_init example_database) 512) = Inr None"
  by (simp add: get_doc_def get_page_def index_init_def example_database_def PAGE_SIZE_def Let_def)

text \<open>
  Claim C5. The build of the three example documents emits them by descending score,
  Cat2 (score 20) as docid 0, Cat (score 10) as docid 1 and Dog (score 5) as docid 2;
  afterwards the keys are cat, dog and bird, the title of \<open>get_doc(0)\<close> is Cat2, and
  the posting list stored for cat decodes to \<open>{0: [0], 1: [0]}\<close>.
\<close>

theorem end_to_end_example:
  "(\<exists>ordered_source quantity.
      order_source upper get_path_file example_source = Inr (ordered_source, quantity)
      \<and> gen_ordered ordered_source =
            [([''cat''], 20, [FNone, FStr ''Cat2'']),
             ([''cat'', ''dog''], 10, [FNone, FStr ''Cat'']),
             ([''dog'', ''bird''], 5, [FNone, FStr ''Dog''])])
   \<and> create upper get_path_file example_source = Some (Inr (5, example_database))
   \<and> index_values (index_init example_database) =
         [[FNone, FStr ''Cat2'', FNum 20], [FNone, FStr ''Cat'', FNum 10],
          [FNone, FStr ''Dog'', FNum 5]]
   \<and> set (index_keys (index_init example_database)) = {''cat'', ''dog'', ''bird''}
   \<and> (\<exists>fname self'. get_doc upper get_path_file (index_init example_database) 0
          = (Inr (Some [FStr fname, FStr ''Cat2'', FNum 20]), self'))
   \<and> map_of (index_items (index_init example_database)) ''cat''
         = Some (Inr [(0, [0]), (1, [0])])"
proof -
  have "set (index_keys (index_init example_database)) = {''cat'', ''dog'', ''bird''}"
    unfolding example_keys by auto
  then show ?thesis
    using example_order [of upper get_path_file] example_emitted
      example_create [of upper get_path_file] example_values
      example_get_doc [of upper get_path_file] example_items
    by simp
qed

text \<open>
  Claim C2. On the index built from the example (three documents, one page), a page id
  that is not in the table gives None from \<open>_get_page\<close>, and so does \<open>get_doc\<close> of a
  docid on such a page; but \<open>get_doc(3)\<close>, a docid that does not exist on the page
  that does, raises IndexError instead of returning None.
\<close>

theorem get_doc_beyond_last_record:
  "create upper get_path_file example_source = Some (Inr (5, example_database))
   \<and> fst (get_page (index_init example_database) 1) = None
   \<and> fst (get_doc upper get_path_file (index_init example_database) 512) = Inr None
   \<and> fst (get_doc upper get_path_file (index_init example_database) 3) = Inl IndexError"
  using example_create [of upper get_path_file] example_get_page
    example_get_doc_3 [of upper get_path_file] example_get_doc_512 [of upper get_path_file]
  by simp

section \<open>The paged document store\<close>

lemma chunk_below: "i < n div 512 \<Longrightarrow> 512 * i + 512 \<le> (n::nat)"
proof -
  assume "i < n div 512"
  then have "Suc i \<le> n div 512" by simp
  then have "Suc i * 512 \<le> n" by (simp only: less_eq_div_iff_mult_less_eq zero_less_numeral)
  then show ?thesis by simp
qed

lemma page_row_snoc:
  "512 * i + 512 \<le> length rows \<Longrightarrow> page_row (rows @ [r]) i = page_row rows i"
  by (simp add: page_row_def)

lemma pages_snoc:
  "map (page_row (rows @ [r])) [0 ..< length rows div 512] = map (page_row rows) [0 ..< length rows div 512]"
proof (rule map_cong [OF refl])
  fix i assume "i \<in> set [0 ..< length rows div 512]"
  then have "i < length rows div 512" by simp
  then have "512 * i + 512 \<le> length rows" by (rule chunk_below)
  then show "page_row (rows @ [r]) i = page_row rows i" by (rule page_row_snoc)
qed

lemma compressed_persist_Inr:
  assumes "compressed_persist self database = Inr database'"
  shows "database' = database\<lparr>docs := docs database @
            [((sm_count self - 1) div 512,
              map (\<lambda>(word_quant, data). int word_quant) (sm_buffer self),
              map (\<lambda>(word_quant, data). data) (sm_buffer self))]\<rparr>"
proof -
  from assms obtain word_quants where
    wq: "array_B (map (\<lambda>(word_quant, data). int word_quant) (sm_buffer self)) = Inr word_quants"
    and ins: "insert_docs database ((sm_count self - 1) div 512, word_quants,
                  map (\<lambda>(word_quant, data). data) (sm_buffer self)) = Inr database'"
    unfolding compressed_persist_def PAGE_SIZE_def Let_def
    by (cases "array_B (map (\<lambda>(word_quant, data). int word_quant) (sm_buffer self))") simp_all
  from wq have "word_quants = map (\<lambda>(word_quant, data). int word_quant) (sm_buffer self)"
    unfolding array_B_def by (simp split: if_splits)
  with ins show ?thesis unfolding insert_docs_def by (simp split: if_splits)
qed

lemma compressed_append_full:
  assumes "(sm_count t + 1) mod 512 = 0"
    and "compressed_append r t database = Inr (docid, t', database')"
  shows "docid = sm_count t \<and> t' = t\<lparr>sm_buffer := [], sm_count := sm_count t + 1\<rparr>
     \<and> compressed_persist (t\<lparr>sm_buffer := sm_buffer t @ [r], sm_count := sm_count t + 1\<rparr>) database
          = Inr database'"
  using assms unfolding compressed_append_def PAGE_SIZE_def Let_def
  by (cases "compressed_persist (t\<lparr>sm_buffer := sm_buffer t @ [r], sm_count := sm_count t + 1\<rparr>) database")
     auto

lemma compressed_append_part:
  assumes "(sm_count t + 1) mod 512 \<noteq> 0"
  shows "compressed_append r t database
     = Inr (sm_count t, t\<lparr>sm_buffer := sm_buffer t @ [r], sm_count := sm_count t + 1\<rparr>, database)"
  using assms unfolding compressed_append_def PAGE_SIZE_def Let_def by simp

lemma suc_div_full: "Suc n mod 512 = 0 \<Longrightarrow> Suc n div 512 = Suc (n div 512)"
  by (simp add: div_Suc)

lemma suc_div_part: "Suc n mod 512 \<noteq> 0 \<Longrightarrow> Suc n div 512 = n div 512"
  by (simp add: div_Suc)

lemma int_suc_mod: "(int n + 1) mod 512 = int (Suc n mod 512)"
  by (simp add: zmod_int add.commute)

lemma suc_mod_full: "Suc n mod 512 = 0 \<Longrightarrow> n mod 512 = 511"
  by (simp add: mod_Suc split: if_splits)

lemma length_last_chunk: "length (drop (512 * (length rows div 512)) rows) = length rows mod 512"
  by (simp add: minus_mult_div_eq_mod)

lemma compressed_append_shape:
  assumes inv: "docs_inv rows t database"
    and app: "compressed_append r t database = Inr (docid, t', database')"
  shows "docid = int (length rows) \<and> docs_inv (rows @ [r]) t' database'
         \<and> tokens database' = tokens database"
proof -
  let ?n = "length rows"
  have cnt: "sm_count t = int ?n" and buf: "sm_buffer t = drop (512 * (?n div 512)) rows"
    and dcs: "docs database = map (page_row rows) [0 ..< ?n div 512]"
    using inv by (simp_all add: docs_inv_def)
  have le: "512 * (?n div 512) \<le> ?n" by simp
  show ?thesis
  proof (cases "Suc ?n mod 512 = 0")
    case True
    then have m: "(sm_count t + 1) mod 512 = 0" unfolding cnt int_suc_mod by simp
    have d1: "Suc ?n div 512 = Suc (?n div 512)" using True by (rule suc_div_full)
    have pid: "(int ?n + 1 - 1) div 512 = int (?n div 512)" by (simp add: zdiv_int)
    have len: "length (drop (512 * (?n div 512)) rows) = 511"
      unfolding length_last_chunk using True by (rule suc_mod_full)
    have full: "take 512 (drop (512 * (?n div 512)) (rows @ [r])) = drop (512 * (?n div 512)) rows @ [r]"
      using le len by simp
    have newrow: "page_row (rows @ [r]) (?n div 512)
        = (int (?n div 512), map (\<lambda>(word_quant, data). int word_quant) (sm_buffer t @ [r]),
           map (\<lambda>(word_quant, data). data) (sm_buffer t @ [r]))"
      unfolding page_row_def full buf by simp
    have "length (rows @ [r]) \<le> 512 * Suc (?n div 512)"
      using True d1 by (metis length_append_singleton mod_0_imp_dvd dvd_mult_div_cancel le_refl)
    then have emp: "drop (512 * Suc (?n div 512)) (rows @ [r]) = []"
      by (rule drop_all)
    note f = compressed_append_full [OF m app]
    from f have dk: "docid = int ?n" and t': "t' = t\<lparr>sm_buffer := [], sm_count := int ?n + 1\<rparr>"
      by (auto simp: cnt)
    from f have "compressed_persist (t\<lparr>sm_buffer := sm_buffer t @ [r], sm_count := sm_count t + 1\<rparr>) database
          = Inr database'" by simp
    from compressed_persist_Inr [OF this]
    have db': "database' = database\<lparr>docs := docs database @ [page_row (rows @ [r]) (?n div 512)]\<rparr>"
      unfolding newrow by (simp add: cnt pid)
    have "docs database' = map (page_row (rows @ [r])) [0 ..< Suc ?n div 512]"
      unfolding d1 db' by (simp add: dcs pages_snoc)
    then show ?thesis using t' dk db' emp d1 by (simp add: docs_inv_def)
  next
    case False
    then have m: "(sm_count t + 1) mod 512 \<noteq> 0" unfolding cnt int_suc_mod by simp
    have d1: "Suc ?n div 512 = ?n div 512" using False by (rule suc_div_part)
    from app have t': "t' = t\<lparr>sm_buffer := sm_buffer t @ [r], sm_count := int ?n + 1\<rparr>"
      and dk: "docid = int ?n" and db': "database' = database"
      unfolding compressed_append_part [OF m] by (auto simp: cnt)
    have "drop (512 * (?n div 512)) (rows @ [r]) = sm_buffer t @ [r]"
      using le buf by simp
    then show ?thesis using t' dk db' d1 dcs by (simp add: docs_inv_def pages_snoc)
  qed
qed

lemma decomp512:
  obtains q r where "n = 512 * q + r" and "r < 512" and "n div 512 = q" and "n mod 512 = (r::nat)"
proof -
  have "n = 512 * (n div 512) + n mod 512" by simp
  moreover have "n mod 512 < 512" by simp
  ultimately show ?thesis using that by blast
qed

lemma npages_full: "n mod 512 = 0 \<Longrightarrow> (n + 511) div 512 = n div (512::nat)"
proof -
  assume a: "n mod 512 = 0"
  obtain q r where n: "n = 512 * q + r" and r: "r < 512" and q: "n div 512 = q" and m: "n mod 512 = r"
    by (rule decomp512)
  from a m have "r = 0" by simp
  then have "(n + 511) div 512 = q" unfolding n by (intro div_nat_eqI) simp_all
  then show ?thesis using q by simp
qed

lemma npages_part: "n mod 512 \<noteq> 0 \<Longrightarrow> (n + 511) div 512 = Suc (n div (512::nat))"
proof -
  assume a: "n mod 512 \<noteq> 0"
  obtain q r where n: "n = 512 * q + r" and r: "r < 512" and q: "n div 512 = q" and m: "n mod 512 = r"
    by (rule decomp512)
  from a m have "0 < r" by simp
  then have "(n + 511) div 512 = Suc q" unfolding n using r by (intro div_nat_eqI) simp_all
  then show ?thesis using q by simp
qed

lemma last_page_id: "n mod 512 \<noteq> 0 \<Longrightarrow> (int n - 1) div 512 = int (n div 512)"
proof -
  assume a: "n mod 512 \<noteq> 0"
  obtain q r where n: "n = 512 * q + r" and r: "r < 512" and q: "n div 512 = q" and m: "n mod 512 = r"
    by (rule decomp512)
  from a m have r0: "0 < r" by simp
  then have "(n - 1) div 512 = q" unfolding n using r by (intro div_nat_eqI) simp_all
  moreover have "int n - 1 = int (n - 1)" using r0 n by simp
  ultimately show ?thesis using q by (simp only: zdiv_int)
qed

lemma page_of_doc: "d < n \<Longrightarrow> d div 512 < (n + 511) div (512::nat)"
proof -
  assume "d < n"
  then have "d div 512 \<le> (n - 1) div 512" by (intro div_le_mono) simp
  also have "\<dots> < (n + 511) div 512"
  proof -
    have "(n - 1 + 512) div 512 = Suc ((n - 1) div 512)" by simp
    moreover have "n - 1 + 512 = n + 511" using \<open>d < n\<close> by simp
    ultimately show ?thesis by simp
  qed
  finally show ?thesis .
qed

lemma offset_of_doc:
  assumes "d < n"
  shows "d mod 512 < min 512 (n - 512 * (d div (512::nat)))"
proof -
  have "512 * (d div 512) + d mod 512 = d" by simp
  then have "512 * (d div 512) + d mod 512 < n" using assms by simp
  then have "d mod 512 < n - 512 * (d div 512)" by (simp add: less_diff_conv add.commute)
  moreover have "d mod 512 < 512" by simp
  ultimately show ?thesis by simp
qed

lemma add_docs_loop_shape:
  assumes "docs_inv rows t database"
    and "add_docs_loop es idx t database = Inr (idx', t', database')"
  shows "docs_inv (rows @ map row_of es) t' database' \<and> tokens database' = tokens database"
  using assms
proof (induction es arbitrary: rows idx t database)
  case Nil
  then show ?case by simp
next
  case (Cons e es)
  obtain words page_score data where e: "e = (words, page_score, data)" by (cases e)
  from Cons.prems(2) obtain docid t1 database1 where
    app: "compressed_append (length words, data @ [FNum page_score]) t database = Inr (docid, t1, database1)"
    and rest: "add_docs_loop es (add_words idx docid 0 words) t1 database1 = Inr (idx', t', database')"
    unfolding e by (auto split: sum.splits)
  from compressed_append_shape [OF Cons.prems(1) app]
  have inv1: "docs_inv (rows @ [row_of e]) t1 database1" and tk: "tokens database1 = tokens database"
    by (simp_all add: row_of_def e)
  from Cons.IH [OF inv1 rest] tk show ?case by simp
qed

lemma compressed_finish_shape:
  assumes inv: "docs_inv rows t database"
    and fin: "compressed_finish t database = Inr database'"
  shows "docs database' = map (page_row rows) [0 ..< (length rows + 511) div 512]
         \<and> tokens database' = tokens database"
proof -
  let ?n = "length rows"
  have cnt: "sm_count t = int ?n" and buf: "sm_buffer t = drop (512 * (?n div 512)) rows"
    and dcs: "docs database = map (page_row rows) [0 ..< ?n div 512]"
    using inv by (simp_all add: docs_inv_def)
  have len: "length (sm_buffer t) = ?n mod 512" unfolding buf by (rule length_last_chunk)
  show ?thesis
  proof (cases "?n mod 512 = 0")
    case True
    then have "sm_buffer t = []" using len by simp
    then have "database' = database" using fin by (simp add: compressed_finish_def)
    then show ?thesis using dcs npages_full [OF True] by simp
  next
    case False
    then have "sm_buffer t \<noteq> []" using len by auto
    then have "compressed_persist t database = Inr database'"
      using fin by (simp add: compressed_finish_def)
    from compressed_persist_Inr [OF this]
    have db': "database' = database\<lparr>docs := docs database @
            [(int (?n div 512), map (\<lambda>(word_quant, data). int word_quant) (sm_buffer t),
              map (\<lambda>(word_quant, data). data) (sm_buffer t))]\<rparr>"
      by (simp add: cnt last_page_id [OF False])
    have "length (drop (512 * (?n div 512)) rows) < 512"
      unfolding length_last_chunk by simp
    then have "take 512 (drop (512 * (?n div 512)) rows) = drop (512 * (?n div 512)) rows"
      by simp
    then have "page_row rows (?n div 512) =
        (int (?n div 512), map (\<lambda>(word_quant, data). int word_quant) (sm_buffer t),
              map (\<lambda>(word_quant, data). data) (sm_buffer t))"
      by (simp add: page_row_def buf)
    then show ?thesis unfolding db' npages_part [OF False] by (simp add: dcs)
  qed
qed

lemma docs_inv_init: "docs_inv [] sqlmany_init create_database"
  by (simp add: docs_inv_def sqlmany_init_def create_database_def)

lemma add_docs_keys_shape:
  assumes "add_docs_keys es create_database = Inr (idx_dict, database)"
  shows "docs database = map (page_row (map row_of es)) [0 ..< (length es + 511) div 512]
         \<and> tokens database = []"
proof -
  from assms obtain idx t database1 where
    loop: "add_docs_loop es [] sqlmany_init create_database = Inr (idx, t, database1)"
    and fin: "compressed_finish t database1 = Inr database"
    unfolding add_docs_keys_def by (auto split: sum.splits)
  from add_docs_loop_shape [OF docs_inv_init loop]
  have inv: "docs_inv (map row_of es) t database1" and tk: "tokens database1 = []"
    by (simp_all add: create_database_def)
  from compressed_finish_shape [OF inv fin] tk show ?thesis by simp
qed

text \<open>Reading the pages back.\<close>

lemma concat_chunks:
  "concat (map (\<lambda>i. take k (drop (k * i) xs)) [0 ..< m]) = take (k * m) xs"
proof (induction m)
  case 0
  then show ?case by simp
next
  case (Suc m)
  have "take (k * m) xs @ take k (drop (k * m) xs) = take (k * m + k) xs"
    by (simp add: take_add)
  then show ?case using Suc by (simp add: add.commute)
qed

lemma sorted_pages: "sort_key fst (map (page_row rows) [0 ..< m]) = map (page_row rows) [0 ..< m]"
proof -
  have "map fst (map (page_row rows) [0 ..< m]) = map int [0 ..< m]"
    by (simp add: page_row_def comp_def)
  moreover have "sorted (map int [0 ..< m])"
    by (simp add: sorted_map sorted_wrt_iff_nth_less)
  ultimately have "sorted (map fst (map (page_row rows) [0 ..< m]))" by (simp only:)
  then show ?thesis by (rule sort_key_id_if_sorted)
qed

section \<open>The tokens table\<close>

lemma tokens_persist_docs:
  "tokens_persist buffer database = Some (Inr database') \<Longrightarrow> docs database' = docs database"
proof (induction buffer arbitrary: database)
  case Nil
  then show ?case by simp
next
  case (Cons a buffer)
  obtain word docs_list where a: "a = (word, docs_list)" by (cases a)
  from Cons.prems obtain docsets where
    "tokens_persist buffer (insert_tokens database (word, docsets)) = Some (Inr database')"
    unfolding a by (auto split: option.splits sum.splits)
  from Cons.IH [OF this] show ?case by (simp add: insert_tokens_def)
qed

lemma tokens_persist_returns:
  "\<forall>e\<in>set buffer. encodable (snd e) \<Longrightarrow> \<exists>database'. tokens_persist buffer database = Some (Inr database')"
proof (induction buffer arbitrary: database)
  case Nil
  then show ?case by simp
next
  case (Cons a buffer)
  obtain word docs_list where a: "a = (word, docs_list)" by (cases a)
  from Cons.prems obtain docsets where "encode docs_list = Some (Inr docsets)"
    unfolding a encodable_def by auto
  moreover from Cons.prems have "\<forall>e\<in>set buffer. encodable (snd e)" by simp
  from Cons.IH [OF this, of "insert_tokens database (word, docsets)"]
  obtain database' where
    "tokens_persist buffer (insert_tokens database (word, docsets)) = Some (Inr database')" ..
  ultimately show ?case unfolding a by simp
qed

lemma tokens_append_docs:
  assumes "tokens_append data t database = Some (Inr (i, t', database'))"
  shows "docs database' = docs database"
proof (cases "(sm_count t + 1) mod 512 = 0")
  case True
  with assms have "tokens_persist (sm_buffer t @ [data]) database = Some (Inr database')"
    unfolding tokens_append_def PAGE_SIZE_def Let_def
    by (auto split: option.splits sum.splits)
  then show ?thesis by (rule tokens_persist_docs)
next
  case False
  with assms show ?thesis unfolding tokens_append_def PAGE_SIZE_def Let_def by simp
qed

lemma tokens_append_returns:
  assumes "\<forall>e\<in>set (sm_buffer t). encodable (snd e)" and "encodable (snd data)"
  shows "\<exists>i t' database'. tokens_append data t database = Some (Inr (i, t', database'))
           \<and> (\<forall>e\<in>set (sm_buffer t'). encodable (snd e))"
proof (cases "(sm_count t + 1) mod 512 = 0")
  case True
  from assms have "\<forall>e\<in>set (sm_buffer t @ [data]). encodable (snd e)" by simp
  from tokens_persist_returns [OF this, of database] obtain database' where
    "tokens_persist (sm_buffer t @ [data]) database = Some (Inr database')" ..
  with True show ?thesis unfolding tokens_append_def PAGE_SIZE_def Let_def by simp
next
  case False
  with assms show ?thesis unfolding tokens_append_def PAGE_SIZE_def Let_def by simp
qed

lemma add_tokens_loop_shape:
  assumes "add_tokens_loop idx indexed t database = Some (Inr (indexed', t', database'))"
  shows "docs database' = docs database
         \<and> indexed' = indexed + sum_list (map (\<lambda>e. docset_len (snd e)) idx)"
  using assms
proof (induction idx arbitrary: indexed t database)
  case Nil
  then show ?case by simp
next
  case (Cons a idx)
  obtain word docs_list where a: "a = (word, docs_list)" by (cases a)
  from Cons.prems obtain i t1 database1 where
    app: "tokens_append (word, docs_list) t database = Some (Inr (i, t1, database1))"
    and rest: "add_tokens_loop idx (indexed + docset_len docs_list) t1 database1
                 = Some (Inr (indexed', t', database'))"
    unfolding a by (auto split: option.splits sum.splits)
  from Cons.IH [OF rest] tokens_append_docs [OF app] show ?case by (simp add: a)
qed

lemma add_tokens_loop_returns:
  assumes "\<forall>e\<in>set (sm_buffer t). encodable (snd e)" and "\<forall>e\<in>set idx. encodable (snd e)"
  shows "\<exists>indexed' t' database'. add_tokens_loop idx indexed t database
            = Some (Inr (indexed', t', database'))
           \<and> (\<forall>e\<in>set (sm_buffer t'). encodable (snd e))"
  using assms
proof (induction idx arbitrary: indexed t database)
  case Nil
  then show ?case by simp
next
  case (Cons a idx)
  obtain word docs_list where a: "a = (word, docs_list)" by (cases a)
  from Cons.prems have "encodable (snd (word, docs_list))" by (simp add: a)
  from tokens_append_returns [OF Cons.prems(1) this, of database]
  obtain i t1 database1 where
    app: "tokens_append (word, docs_list) t database = Some (Inr (i, t1, database1))"
    and b1: "\<forall>e\<in>set (sm_buffer t1). encodable (snd e)" by blast
  from Cons.prems have "\<forall>e\<in>set idx. encodable (snd e)" by simp
  from Cons.IH [OF b1 this, of "indexed + docset_len docs_list" database1] app
  show ?case by (simp add: a)
qed

lemma add_tokens_to_db_shape:
  assumes "add_tokens_to_db idx_dict database = Some (Inr (indexed, database'))"
  shows "docs database' = docs database
         \<and> indexed = sum_list (map (\<lambda>e. docset_len (snd e)) idx_dict)"
proof -
  from assms obtain t database1 where
    loop: "add_tokens_loop idx_dict 0 sqlmany_init database = Some (Inr (indexed, t, database1))"
    and fin: "tokens_finish t database1 = Some (Inr database')"
    unfolding add_tokens_to_db_def by (auto split: option.splits sum.splits)
  have "docs database' = docs database1"
  proof (cases "sm_buffer t = []")
    case True
    with fin show ?thesis by (simp add: tokens_finish_def)
  next
    case False
    with fin have "tokens_persist (sm_buffer t) database1 = Some (Inr database')"
      by (simp add: tokens_finish_def)
    then show ?thesis by (rule tokens_persist_docs)
  qed
  with add_tokens_loop_shape [OF loop] show ?thesis by simp
qed

lemma add_tokens_to_db_returns:
  assumes "\<forall>e\<in>set idx_dict. encodable (snd e)"
  shows "\<exists>indexed database'. add_tokens_to_db idx_dict database = Some (Inr (indexed, database'))"
proof -
  have "\<forall>e\<in>set (sm_buffer (sqlmany_init :: (string \<times> DocSet) sqlmany)). encodable (snd e)"
    by (simp add: sqlmany_init_def)
  from add_tokens_loop_returns [OF this assms, of 0 database]
  obtain indexed t database1 where
    loop: "add_tokens_loop idx_dict 0 sqlmany_init database = Some (Inr (indexed, t, database1))"
    and b: "\<forall>e\<in>set (sm_buffer t). encodable (snd e)" by blast
  from tokens_persist_returns [OF b, of database1] obtain database' where
    "tokens_persist (sm_buffer t) database1 = Some (Inr database')" ..
  then have "\<exists>database'. tokens_finish t database1 = Some (Inr database')"
    by (simp add: tokens_finish_def)
  with loop show ?thesis by (auto simp: add_tokens_to_db_def)
qed

section \<open>Ordering the source\<close>

lemma to_filename_empty: "to_filename upper get_path_file [] = Inl ValueError"
  by (simp add: to_filename_def)

lemma entry_ok_shape:
  "entry_ok e \<Longrightarrow> \<exists>words page_score f0 title payload.
      e = (words, page_score, f0 # FStr title # payload) \<and> title \<noteq> []"
  by (induction e rule: entry_ok.induct) simp_all

lemma order_source_step:
  assumes "entry_ok e"
  shows "order_source_loop upper get_path_file (e # source) os
       = order_source_loop upper get_path_file source
           (bucket_append os (fst (snd e)) (norm_entry upper get_path_file e))"
proof -
  from entry_ok_shape [OF assms] obtain words page_score f0 title payload where
    e: "e = (words, page_score, f0 # FStr title # payload)" and t: "title \<noteq> []" by blast
  from to_filename_total [OF t] obtain fname
    where f: "to_filename upper get_path_file title = Inr fname" by blast
  show ?thesis unfolding e by (simp add: f norm_entry_def)
qed

lemma order_source_step_fail:
  assumes "\<not> entry_ok e"
  shows "\<exists>err. order_source_loop upper get_path_file (e # source) os = Inl err"
  using assms
  by (induction e rule: entry_ok.induct) (auto simp: to_filename_empty split: list.splits field.splits)

lemma order_source_loop_ok:
  "list_all entry_ok source \<Longrightarrow>
   order_source_loop upper get_path_file source os = Inr (buckets upper get_path_file source os)"
proof (induction source arbitrary: os)
  case Nil
  then show ?case by simp
next
  case (Cons e source)
  then show ?case by (simp add: order_source_step del: order_source_loop.simps(2))
qed

lemma order_source_loop_Inr:
  "order_source_loop upper get_path_file source os = Inr os' \<Longrightarrow> list_all entry_ok source"
proof (induction source arbitrary: os)
  case Nil
  then show ?case by simp
next
  case (Cons e source)
  show ?case
  proof (cases "entry_ok e")
    case True
    with Cons show ?thesis by (simp add: order_source_step del: order_source_loop.simps(2))
  next
    case False
    from order_source_step_fail [OF this, of upper get_path_file source os] Cons.prems
    show ?thesis by auto
  qed
qed

lemma mset_bucket_append:
  "mset (concat (map snd (bucket_append os k v))) = add_mset v (mset (concat (map snd os)))"
  by (induction os k v rule: bucket_append.induct) auto

lemma keys_bucket_append:
  "map fst (bucket_append os k v) = (if k \<in> set (map fst os) then map fst os else map fst os @ [k])"
  by (induction os k v rule: bucket_append.induct) auto

lemma distinct_bucket_append:
  "distinct (map fst os) \<Longrightarrow> distinct (map fst (bucket_append os k v))"
  by (simp add: keys_bucket_append)

lemma buckets_props:
  "distinct (map fst os) \<Longrightarrow>
   distinct (map fst (buckets upper get_path_file source os))
   \<and> mset (concat (map snd (buckets upper get_path_file source os)))
       = mset (map (norm_entry upper get_path_file) source) + mset (concat (map snd os))"
proof (induction source arbitrary: os)
  case Nil
  then show ?case by simp
next
  case (Cons e source)
  from Cons.IH [OF distinct_bucket_append [OF Cons.prems]]
  show ?case by (simp add: mset_bucket_append)
qed

lemma mset_concat_map: "mset (concat (map f ks)) = (\<Sum>k\<in>#mset ks. mset (f k))"
  by (induction ks) simp_all

lemma gen_ordered_mset:
  assumes "distinct (map fst os)"
  shows "mset (gen_ordered os) = mset (concat (map snd os))"
proof -
  let ?f = "\<lambda>score. case map_of os score of None \<Rightarrow> [] | Some vs \<Rightarrow> vs"
  have look: "?f (fst e) = snd e" if "e \<in> set os" for e
  proof -
    from that have "(fst e, snd e) \<in> set os" by simp
    then have "map_of os (fst e) = Some (snd e)"
      by (simp only: map_of_eq_Some_iff [OF assms])
    then show ?thesis by simp
  qed
  have "mset (gen_ordered os) = (\<Sum>k\<in>#mset (rev (sort (map fst os))). mset (?f k))"
    unfolding gen_ordered_def by (rule mset_concat_map)
  also have "\<dots> = (\<Sum>k\<in>#image_mset fst (mset os). mset (?f k))"
    by simp
  also have "\<dots> = (\<Sum>e\<in>#mset os. mset (?f (fst e)))"
    by (simp only: image_mset.compositionality comp_def)
  also have "\<dots> = (\<Sum>e\<in>#mset os. mset (snd e))"
    by (intro arg_cong [where f = sum_mset] image_mset_cong) (simp add: look)
  also have "\<dots> = mset (concat (map snd os))"
    by (rule mset_concat_map [symmetric])
  finally show ?thesis .
qed

lemma order_source_emitted:
  assumes "order_source upper get_path_file source = Inr (os, quantity)"
  shows "list_all entry_ok source
         \<and> mset (gen_ordered os) = mset (map (norm_entry upper get_path_file) source)"
proof -
  from assms have loop: "order_source_loop upper get_path_file source [] = Inr os"
    by (auto simp: order_source_def split: sum.splits)
  from order_source_loop_Inr [OF loop] have ok: "list_all entry_ok source" .
  from order_source_loop_ok [OF ok, of upper get_path_file "[]"] loop
  have os: "os = buckets upper get_path_file source []" by simp
  have "distinct (map fst ([] :: (int \<times> source_entry list) list))" by simp
  from buckets_props [OF this, of upper get_path_file source] gen_ordered_mset [of os]
  show ?thesis using ok unfolding os by simp
qed

lemma order_source_returns:
  "list_all entry_ok source \<Longrightarrow>
   \<exists>os quantity. order_source upper get_path_file source = Inr (os, quantity)"
  by (simp add: order_source_def order_source_loop_ok)

section \<open>The reader and its page cache\<close>

lemma page_rel_refl: "page_rel upper get_path_file data data"
  by (simp add: page_rel_def list_all2_refl)

lemma backfilled_FNone:
  "backfilled upper get_path_file d = FNone # rest \<Longrightarrow> backfilled upper get_path_file d = d"
  by (auto simp: backfilled_def split: list.splits field.splits sum.splits)

lemma cache_ok_init: "cache_ok upper get_path_file (index_init database)"
  by (simp add: cache_ok_def index_init_def)

lemma get_page_ok:
  assumes "cache_ok upper get_path_file self"
  shows "cache_ok upper get_path_file (snd (get_page self pageid))
     \<and> db (snd (get_page self pageid)) = db self
     \<and> entry_rel upper get_path_file (db self) (pageid, fst (get_page self pageid))"
proof (cases "map_of (page_cache self) pageid")
  case None
  have e: "entry_rel upper get_path_file (db self)
             (pageid, map_option snd (map_of (docs (db self)) pageid))"
    by (auto simp: entry_rel_def page_rel_refl split: option.splits)
  have "list_all (entry_rel upper get_path_file (db self))
          (take 1000 ((pageid, map_option snd (map_of (docs (db self)) pageid)) # page_cache self))"
    using assms e unfolding cache_ok_def list_all_iff by (auto dest: in_set_takeD)
  then show ?thesis using None e by (simp add: get_page_def cache_ok_def Let_def)
next
  case (Some v)
  then have "(pageid, v) \<in> set (page_cache self)" by (rule map_of_SomeD)
  then have e: "entry_rel upper get_path_file (db self) (pageid, v)"
    using assms unfolding cache_ok_def list_all_iff by blast
  have "list_all (entry_rel upper get_path_file (db self))
          ((pageid, v) # filter (\<lambda>e. fst e \<noteq> pageid) (page_cache self))"
    using assms e unfolding cache_ok_def list_all_iff by auto
  then show ?thesis using Some e by (simp add: get_page_def cache_ok_def)
qed

lemma cache_update_ok:
  assumes "cache_ok upper get_path_file self1"
    and "entry_rel upper get_path_file (db self1) (pid, Some rows')"
  shows "cache_ok upper get_path_file
           (self1\<lparr>page_cache := map (\<lambda>(k, v). if k = pid then (k, Some rows') else (k, v))
              (page_cache self1)\<rparr>)"
  using assms unfolding cache_ok_def list_all_iff
  by (auto simp: entry_rel_def split: if_splits)

lemma page_rel_update:
  assumes "page_rel upper get_path_file data rows" and "i < length rows"
    and "r = backfilled upper get_path_file (data ! i)"
  shows "page_rel upper get_path_file data (rows[i := r])"
proof -
  have "list_all2 (\<lambda>d r. r = d \<or> r = backfilled upper get_path_file d) (data[i := data ! i]) (rows[i := r])"
    using assms unfolding page_rel_def by (intro list_all2_update_cong) simp_all
  then show ?thesis by (simp add: page_rel_def)
qed

lemma get_doc_ok:
  assumes "cache_ok upper get_path_file self"
  shows "cache_ok upper get_path_file (snd (get_doc upper get_path_file self docid))
     \<and> db (snd (get_doc upper get_path_file self docid)) = db self"
proof -
  let ?pid = "docid div 512" and ?rel = "nat (docid mod 512)"
  obtain v self1 where gp: "get_page self ?pid = (v, self1)" by (cases "get_page self ?pid")
  from get_page_ok [OF assms, of ?pid] gp
  have ok1: "cache_ok upper get_path_file self1" and db1: "db self1 = db self"
    and er: "entry_rel upper get_path_file (db self) (?pid, v)" by simp_all
  show ?thesis
  proof (cases "\<exists>rows title payload fname. v = Some rows \<and> rows \<noteq> [] \<and> ?rel < length rows
        \<and> rows ! ?rel = FNone # FStr title # payload
        \<and> to_filename upper get_path_file title = Inr fname")
    case True
    then obtain rows title payload fname where v: "v = Some rows" and ne: "rows \<noteq> []"
      and lt: "?rel < length rows" and row: "rows ! ?rel = FNone # FStr title # payload"
      and f: "to_filename upper get_path_file title = Inr fname" by blast
    let ?rows' = "rows[?rel := FStr fname # FStr title # payload]"
    have s: "snd (get_doc upper get_path_file self docid) =
        self1\<lparr>page_cache := map (\<lambda>(k, v). if k = ?pid then (k, Some ?rows') else (k, v))
              (page_cache self1)\<rparr>"
      using gp v ne lt row f by (simp add: get_doc_def PAGE_SIZE_def Let_def)
    from er v obtain word_quants data where
      m: "map_of (docs (db self)) ?pid = Some (word_quants, data)"
      and pr: "page_rel upper get_path_file data rows"
      by (auto simp: entry_rel_def split: option.splits)
    from pr lt have "rows ! ?rel = data ! ?rel \<or> rows ! ?rel = backfilled upper get_path_file (data ! ?rel)"
      unfolding page_rel_def by (auto dest: list_all2_nthD2)
    then have "data ! ?rel = FNone # FStr title # payload"
      using row backfilled_FNone [of upper get_path_file "data ! ?rel" "FStr title # payload"] by auto
    then have "FStr fname # FStr title # payload = backfilled upper get_path_file (data ! ?rel)"
      by (simp add: backfilled_def f)
    from page_rel_update [OF pr lt this]
    have "entry_rel upper get_path_file (db self1) (?pid, Some ?rows')"
      by (simp add: entry_rel_def db1 m)
    from cache_update_ok [OF ok1 this] show ?thesis unfolding s by (simp add: db1)
  next
    case False
    then have "snd (get_doc upper get_path_file self docid) = self1"
      using gp by (auto simp: get_doc_def PAGE_SIZE_def Let_def
          split: option.splits list.splits field.splits sum.splits)
    then show ?thesis using ok1 db1 by simp
  qed
qed

lemma get_docs_ok:
  "cache_ok upper get_path_file self \<Longrightarrow>
   cache_ok upper get_path_file (get_docs upper get_path_file self docids)
   \<and> db (get_docs upper get_path_file self docids) = db self"
proof (induction docids arbitrary: self)
  case Nil
  then show ?case by simp
next
  case (Cons docid docids)
  from get_doc_ok [OF Cons.prems, of docid] Cons.IH [of "snd (get_doc upper get_path_file self docid)"]
  show ?case by simp
qed

lemma get_doc_missing:
  assumes "cache_ok upper get_path_file self"
    and "map_of (docs (db self)) (docid div 512) = None"
  shows "fst (get_doc upper get_path_file self docid) = Inr None"
proof -
  obtain v self1 where gp: "get_page self (docid div 512) = (v, self1)"
    by (cases "get_page self (docid div 512)")
  from get_page_ok [OF assms(1), of "docid div 512"] gp assms(2)
  have "v = None" by (simp add: entry_rel_def)
  then show ?thesis using gp by (simp add: get_doc_def PAGE_SIZE_def Let_def)
qed

lemma get_doc_result:
  assumes ok: "cache_ok upper get_path_file self"
    and m: "map_of (docs (db self)) (docid div 512) = Some (word_quants, data)"
    and lt: "nat (docid mod 512) < length data"
    and row: "data ! nat (docid mod 512) = f0 # FStr title # payload"
    and t: "title \<noteq> []"
  shows "fst (get_doc upper get_path_file self docid)
           = Inr (Some (backfilled upper get_path_file (data ! nat (docid mod 512))))"
proof -
  let ?pid = "docid div 512" and ?rel = "nat (docid mod 512)"
  obtain v self1 where gp: "get_page self ?pid = (v, self1)" by (cases "get_page self ?pid")
  from get_page_ok [OF ok, of ?pid] gp m obtain rows where v: "v = Some rows"
    and pr: "page_rel upper get_path_file data rows"
    by (auto simp: entry_rel_def split: option.splits)
  from pr have len: "length rows = length data" unfolding page_rel_def
    by (simp add: list_all2_lengthD)
  with lt have ne: "rows \<noteq> []" and lt': "?rel < length rows" by auto
  from to_filename_total [OF t] obtain fname where
    f: "to_filename upper get_path_file title = Inr fname" by blast
  have bf: "backfilled upper get_path_file (data ! ?rel)
      = (if f0 = FNone then FStr fname else f0) # FStr title # payload"
    unfolding row by (cases f0) (simp_all add: backfilled_def f)
  from pr lt' have alt: "rows ! ?rel = data ! ?rel \<or> rows ! ?rel = backfilled upper get_path_file (data ! ?rel)"
    unfolding page_rel_def by (auto dest: list_all2_nthD2)
  then show ?thesis
  proof
    assume "rows ! ?rel = data ! ?rel"
    then have "rows ! ?rel = f0 # FStr title # payload" using row by simp
    then show ?thesis unfolding bf using gp v ne lt' f
      by (simp add: get_doc_def PAGE_SIZE_def Let_def)
  next
    assume "rows ! ?rel = backfilled upper get_path_file (data ! ?rel)"
    then have r: "rows ! ?rel = (if f0 = FNone then FStr fname else f0) # FStr title # payload"
      using bf by simp
    show ?thesis unfolding bf using gp v ne lt' r
      by (simp add: get_doc_def PAGE_SIZE_def Let_def)
  qed
qed

section \<open>A built index\<close>

lemma norm_entry_ok: "entry_ok e \<Longrightarrow> entry_ok (norm_entry upper get_path_file e)"
proof -
  assume "entry_ok e"
  from entry_ok_shape [OF this] obtain words page_score f0 title payload where
    e: "e = (words, page_score, f0 # FStr title # payload)" and t: "title \<noteq> []" by blast
  show ?thesis unfolding e using t by (simp add: norm_entry_def split: sum.splits)
qed

lemma norm_entry_words: "fst (norm_entry upper get_path_file e) = fst e"
  by (cases e) (simp add: norm_entry_def split: list.splits field.splits sum.splits)

lemma built_index:
  assumes "create upper get_path_file source = Some (Inr (indexed, database))"
  shows "\<exists>os quantity idx_dict database1.
           order_source upper get_path_file source = Inr (os, quantity)
         \<and> add_docs_keys (gen_ordered os) create_database = Inr (idx_dict, database1)
         \<and> indexed = sum_list (map (\<lambda>e. docset_len (snd e)) idx_dict)
         \<and> docs database = map (page_row (map row_of (gen_ordered os)))
                              [0 ..< (length (gen_ordered os) + 511) div 512]
         \<and> mset (gen_ordered os) = mset (map (norm_entry upper get_path_file) source)
         \<and> list_all entry_ok (gen_ordered os)"
proof -
  from assms obtain os quantity idx_dict database1 where
    o: "order_source upper get_path_file source = Inr (os, quantity)"
    and d: "add_docs_keys (gen_ordered os) create_database = Inr (idx_dict, database1)"
    and t: "add_tokens_to_db idx_dict database1 = Some (Inr (indexed, database))"
    unfolding create_def by (auto split: sum.splits)
  from order_source_emitted [OF o] have ok: "list_all entry_ok source"
    and ms: "mset (gen_ordered os) = mset (map (norm_entry upper get_path_file) source)" by simp_all
  have "set (gen_ordered os) = norm_entry upper get_path_file ` set source"
    using mset_eq_setD [OF ms] by simp
  with ok have eok: "list_all entry_ok (gen_ordered os)"
    by (auto simp: list_all_iff norm_entry_ok)
  from add_docs_keys_shape [OF d] add_tokens_to_db_shape [OF t] o d ms eok
  show ?thesis by simp
qed

lemma built_length:
  assumes "mset emitted = mset (map f source)"
  shows "length emitted = length source"
  using mset_eq_length [OF assms] by simp

lemma stored_page_keys: "map fst (map (page_row rows) [0 ..< np]) = map int [0 ..< np]"
  by (simp add: page_row_def comp_def)

lemma stored_page_lookup:
  assumes "i < np"
  shows "map_of (map (page_row rows) [0 ..< np]) (int i) = Some (snd (page_row rows i))"
proof -
  have "distinct (map fst (map (page_row rows) [0 ..< np]))"
    unfolding stored_page_keys by (simp add: distinct_map inj_on_def)
  moreover have "(int i, snd (page_row rows i)) \<in> set (map (page_row rows) [0 ..< np])"
    using assms by (auto simp: page_row_def image_iff)
  ultimately show ?thesis by (rule map_of_is_SomeI)
qed

lemma stored_page_missing:
  assumes "pid < 0 \<or> int np \<le> pid"
  shows "map_of (map (page_row rows) [0 ..< np]) pid = None"
proof -
  have "pid \<notin> fst ` set (map (page_row rows) [0 ..< np])"
    using assms by (auto simp: page_row_def)
  then show ?thesis by (simp add: map_of_eq_None_iff)
qed

lemma stored_doc:
  assumes "d < length rows"
  shows "d mod 512 < length (take 512 (drop (512 * (d div 512)) rows))
       \<and> take 512 (drop (512 * (d div 512)) rows) ! (d mod 512) = rows ! d"
proof -
  have lt: "d mod 512 < min 512 (length rows - 512 * (d div 512))"
    by (rule offset_of_doc [OF assms])
  then have "take 512 (drop (512 * (d div 512)) rows) ! (d mod 512)
      = rows ! (512 * (d div 512) + d mod 512)" by simp
  then show ?thesis using lt by simp
qed

lemma built_values:
  assumes "docs (db self) = map (page_row rows) [0 ..< (length rows + 511) div 512]"
  shows "index_values self = map snd rows"
proof -
  let ?np = "(length rows + 511) div 512"
  have "length rows \<le> 512 * ?np"
  proof -
    have "length rows + 511 < 512 * Suc ?np"
      using dividend_less_times_div [of 512 "length rows + 511"] by simp
    then show ?thesis by simp
  qed
  then have all: "take (512 * ?np) rows = rows" by simp
  have "index_values self = concat (map (\<lambda>i. map snd (take 512 (drop (512 * i) rows))) [0 ..< ?np])"
    unfolding index_values_def assms sorted_pages
    by (simp add: page_row_def comp_def case_prod_unfold)
  also have "\<dots> = map snd (concat (map (\<lambda>i. take 512 (drop (512 * i) rows)) [0 ..< ?np]))"
    by (simp add: map_concat comp_def)
  also have "\<dots> = map snd rows" unfolding concat_chunks all ..
  finally show ?thesis .
qed

lemma built_len:
  assumes "docs (db self) = map (page_row rows) [0 ..< (length rows + 511) div 512]"
    and "rows \<noteq> []"
  shows "index_len self = Inr (int (length rows))"
proof -
  let ?n = "length rows" and ?np = "(length rows + 511) div 512"
  from assms(2) have pos: "0 < ?n" by simp
  have np: "?np = Suc ((?n - 1) div 512)"
  proof -
    have "?n + 511 = (?n - 1) + 512" using pos by simp
    then show ?thesis by simp
  qed
  let ?l = "(?n - 1) div 512"
  have rv: "rev (sort_key fst (docs (db self))) = page_row rows ?l # rev (map (page_row rows) [0 ..< ?l])"
    unfolding assms(1) sorted_pages np by simp
  have le: "512 * ?l \<le> ?n - 1" by simp
  have "?n - 1 < 512 * ?l + 512"
    using dividend_less_times_div [of 512 "?n - 1"] by simp
  then have "?n - 512 * ?l \<le> 512" using pos by simp
  then have "length (take 512 (drop (512 * ?l) rows)) = ?n - 512 * ?l" by simp
  moreover have "int ?l * 512 + int (?n - 512 * ?l) = int ?n"
    using le pos by simp
  ultimately show ?thesis unfolding index_len_def rv
    by (simp add: page_row_def PAGE_SIZE_def)
qed

lemma built_get_doc:
  assumes ok: "cache_ok upper get_path_file self"
    and dcs: "docs (db self) = map (page_row rows) [0 ..< (length rows + 511) div 512]"
    and d: "d < length rows"
    and row: "snd (rows ! d) = f0 # FStr title # payload"
    and t: "title \<noteq> []"
  shows "fst (get_doc upper get_path_file self (int d))
           = Inr (Some (backfilled upper get_path_file (snd (rows ! d))))"
proof -
  let ?chunk = "take 512 (drop (512 * (d div 512)) rows)"
  let ?data = "map (\<lambda>(word_quant, data). data) ?chunk"
  have pid: "int d div 512 = int (d div 512)" by (simp add: zdiv_int)
  have "int d mod 512 = int (d mod 512)" by (simp add: zmod_int)
  then have rel: "nat (int d mod 512) = d mod 512" by (simp only: nat_int)
  have m: "map_of (docs (db self)) (int d div 512)
      = Some (map (\<lambda>(word_quant, data). int word_quant) ?chunk, ?data)"
    unfolding dcs pid using stored_page_lookup [OF page_of_doc [OF d], of rows]
    by (simp add: page_row_def)
  from stored_doc [OF d] have lt: "d mod 512 < length ?chunk" and nth: "?chunk ! (d mod 512) = rows ! d"
    by simp_all
  have lt': "nat (int d mod 512) < length ?data" unfolding rel using lt by simp
  have nth': "?data ! nat (int d mod 512) = snd (rows ! d)"
    unfolding rel using lt nth by (simp add: case_prod_unfold)
  from get_doc_result [OF ok m lt' _ t, of f0 payload] row nth'
  show ?thesis by simp
qed

lemma row_of_nth:
  "d < length es \<Longrightarrow> es ! d = (words, page_score, data) \<Longrightarrow>
   map row_of es ! d = (length words, data @ [FNum page_score])"
  by (simp add: row_of_def)

text \<open>
  Claim C6. On an index built from a non-empty source, after any lookups, \<open>len()\<close> is
  the number of documents, every docid from 0 up to it gives a record from \<open>get_doc\<close>,
  and \<open>random()\<close> is \<open>get_doc\<close> of the number \<open>randint\<close> draws, a record whatever the
  draw between the bounds. That the draw is uniform is a property of \<open>random.randint\<close>
  and is not part of the model.
\<close>

theorem random_never_fails:
  assumes built: "create upper get_path_file source = Some (Inr (indexed, database))"
    and nonempty: "source \<noteq> []"
    and self: "self = get_docs upper get_path_file (index_init database) docids"
  shows "index_len self = Inr (int (length source))
     \<and> (\<forall>docid. 0 \<le> docid \<and> docid < int (length source) \<longrightarrow>
          (\<exists>row self'. get_doc upper get_path_file self docid = (Inr (Some row), self')))
     \<and> (0 \<le> randint 0 (int (length source) - 1)
          \<and> randint 0 (int (length source) - 1) \<le> int (length source) - 1 \<longrightarrow>
          index_random upper get_path_file randint self
            = get_doc upper get_path_file self (randint 0 (int (length source) - 1))
          \<and> (\<exists>row self'. index_random upper get_path_file randint self = (Inr (Some row), self')))"
proof -
  from built_index [OF built] obtain os where
    dcs: "docs database = map (page_row (map row_of (gen_ordered os)))
                              [0 ..< (length (gen_ordered os) + 511) div 512]"
    and ms: "mset (gen_ordered os) = mset (map (norm_entry upper get_path_file) source)"
    and eok: "list_all entry_ok (gen_ordered os)" by blast
  let ?es = "gen_ordered os" and ?rows = "map row_of (gen_ordered os)"
  have len: "length ?es = length source" by (rule built_length [OF ms])
  from get_docs_ok [OF cache_ok_init, of upper get_path_file database docids]
  have ok: "cache_ok upper get_path_file self" and db: "db self = database"
    unfolding self by (simp_all add: index_init_def)
  have dcs': "docs (db self) = map (page_row ?rows) [0 ..< (length ?rows + 511) div 512]"
    unfolding db dcs by simp
  have ne: "?rows \<noteq> []" using len nonempty by auto
  have l: "index_len self = Inr (int (length source))"
    using built_len [OF dcs' ne] len by simp
  have g: "\<exists>row self'. get_doc upper get_path_file self docid = (Inr (Some row), self')"
    if "0 \<le> docid" and "docid < int (length source)" for docid
  proof -
    define d where "d = nat docid"
    have d: "docid = int d" using that(1) by (simp add: d_def)
    have dl: "d < length ?rows" using that(2) len by (simp add: d)
    from eok dl have "entry_ok (?es ! d)" by (simp add: list_all_length)
    from entry_ok_shape [OF this] obtain words page_score f0 title payload where
      e: "?es ! d = (words, page_score, f0 # FStr title # payload)" and t: "title \<noteq> []" by blast
    have "snd (?rows ! d) = f0 # FStr title # (payload @ [FNum page_score])"
      using dl e by (simp add: row_of_def)
    from built_get_doc [OF ok dcs' dl this t]
    have "fst (get_doc upper get_path_file self docid)
        = Inr (Some (backfilled upper get_path_file (snd (?rows ! d))))" unfolding d .
    then show ?thesis by (cases "get_doc upper get_path_file self docid") simp
  qed
  have r: "index_random upper get_path_file randint self
            = get_doc upper get_path_file self (randint 0 (int (length source) - 1))"
    using nonempty by (simp add: index_random_def l)
  show ?thesis using l g r by simp
qed

theorem random_never_fails_witness:
  "index_len (get_docs (\<lambda>c. [c]) (\<lambda>s. ([], s)) (index_init example_database) [0, 7]) = Inr 3
   \<and> (\<exists>row self'. index_random (\<lambda>c. [c]) (\<lambda>s. ([], s)) (\<lambda>a b. b)
          (get_docs (\<lambda>c. [c]) (\<lambda>s. ([], s)) (index_init example_database) [0, 7])
        = (Inr (Some row), self'))"
proof -
  have ne: "example_source \<noteq> []" by (simp add: example_source_def)
  have n: "int (length example_source) = 3" by (simp add: example_source_def)
  from random_never_fails [where upper = "\<lambda>c. [c]" and get_path_file = "\<lambda>s. ([], s)"
      and randint = "\<lambda>a b. b" and docids = "[0, 7]", OF example_create ne refl]
  show ?thesis unfolding n by simp
qed

text \<open>
  Claim C10. The build stores the source records normalized: one whose filename is the
  one computed from its title is stored with None in the filename field. On the built
  index, after any lookups, for every docid whose stored record has None in the
  filename field, \<open>values()\<close> yields the record at that docid with None in the field,
  \<open>get_doc\<close> of the same docid returns it with the filename computed from the title,
  and \<open>values()\<close> yields the same records after that \<open>get_doc\<close> as before.
\<close>

theorem values_without_backfill:
  assumes built: "create upper get_path_file source = Some (Inr (indexed, database))"
    and ordered: "order_source upper get_path_file source = Inr (ordered_source, quantity)"
    and self: "self = get_docs upper get_path_file (index_init database) docids"
  shows "mset (gen_ordered ordered_source) = mset (map (norm_entry upper get_path_file) source)
     \<and> (\<forall>words page_score fname title payload.
            (words, page_score, FStr fname # FStr title # payload) \<in> set source
            \<and> to_filename upper get_path_file title = Inr fname \<longrightarrow>
            norm_entry upper get_path_file (words, page_score, FStr fname # FStr title # payload)
              = (words, page_score, FNone # FStr title # payload))
     \<and> length (index_values self) = length (gen_ordered ordered_source)
     \<and> (\<forall>d < length (gen_ordered ordered_source). \<forall>words page_score rest.
            gen_ordered ordered_source ! d = (words, page_score, FNone # rest) \<longrightarrow>
              index_values self ! d = FNone # rest @ [FNum page_score]
            \<and> (\<exists>title payload fname.
                   rest = FStr title # payload
                 \<and> to_filename upper get_path_file title = Inr fname
                 \<and> fst (get_doc upper get_path_file self (int d))
                     = Inr (Some (FStr fname # rest @ [FNum page_score])))
            \<and> index_values (snd (get_doc upper get_path_file self (int d))) = index_values self)"
proof -
  let ?es = "gen_ordered ordered_source" and ?rows = "map row_of (gen_ordered ordered_source)"
  from built_index [OF built] ordered have
    dcs: "docs database = map (page_row ?rows) [0 ..< (length ?es + 511) div 512]"
    and ms: "mset ?es = mset (map (norm_entry upper get_path_file) source)"
    and eok: "list_all entry_ok ?es" by auto
  from get_docs_ok [OF cache_ok_init, of upper get_path_file database docids]
  have ok: "cache_ok upper get_path_file self" and db: "db self = database"
    unfolding self by (simp_all add: index_init_def)
  have dcs': "docs (db self) = map (page_row ?rows) [0 ..< (length ?rows + 511) div 512]"
    unfolding db dcs by simp
  have vals: "index_values self = map snd ?rows" by (rule built_values [OF dcs'])
  have A: "\<forall>words page_score fname title payload.
            (words, page_score, FStr fname # FStr title # payload) \<in> set source
            \<and> to_filename upper get_path_file title = Inr fname \<longrightarrow>
            norm_entry upper get_path_file (words, page_score, FStr fname # FStr title # payload)
              = (words, page_score, FNone # FStr title # payload)"
    by (simp add: norm_entry_def)
  have L: "length (index_values self) = length ?es" unfolding vals by simp
  have B: "index_values self ! d = FNone # rest @ [FNum page_score]
            \<and> (\<exists>title payload fname.
                   rest = FStr title # payload
                 \<and> to_filename upper get_path_file title = Inr fname
                 \<and> fst (get_doc upper get_path_file self (int d))
                     = Inr (Some (FStr fname # rest @ [FNum page_score])))
            \<and> index_values (snd (get_doc upper get_path_file self (int d))) = index_values self"
    if dl: "d < length ?es" and e: "?es ! d = (words, page_score, FNone # rest)"
    for d words page_score rest
  proof -
    from eok dl have "entry_ok (?es ! d)" by (simp add: list_all_length)
    from entry_ok_shape [OF this] e obtain title payload where
      r: "rest = FStr title # payload" and t: "title \<noteq> []" by auto
    from to_filename_total [OF t] obtain fname where
      f: "to_filename upper get_path_file title = Inr fname" by blast
    have dl': "d < length ?rows" using dl by simp
    have row: "snd (?rows ! d) = FNone # FStr title # (payload @ [FNum page_score])"
      using dl e r by (simp add: row_of_def)
    have v: "index_values self ! d = FNone # rest @ [FNum page_score]"
      unfolding vals using dl' row r by simp
    have "fst (get_doc upper get_path_file self (int d))
        = Inr (Some (backfilled upper get_path_file (snd (?rows ! d))))"
      by (rule built_get_doc [OF ok dcs' dl' row t])
    then have g: "fst (get_doc upper get_path_file self (int d))
        = Inr (Some (FStr fname # rest @ [FNum page_score]))"
      unfolding row r by (simp add: backfilled_def f)
    from get_doc_ok [OF ok, of "int d"]
    have "db (snd (get_doc upper get_path_file self (int d))) = db self" by simp
    then have same: "index_values (snd (get_doc upper get_path_file self (int d))) = index_values self"
      by (simp add: index_values_def)
    from v r f g same show ?thesis by blast
  qed
  from ms A L B show ?thesis by blast
qed

theorem values_without_backfill_witness:
  "index_values (get_docs (\<lambda>c. [c]) (\<lambda>s. (''d'', s))
        (index_init \<lparr>tokens = [(''cat'', Bytes [0, 0, 255, 0, 1])],
                     docs = [(0, [1, 1], [[FNone, FStr ''Cat'', FNum 10],
                                          [FNone, FStr ''Cat'', FNum 10]])]\<rparr>) [0, 1]) ! 1
       = [FNone, FStr ''Cat'', FNum 10]
   \<and> fst (get_doc (\<lambda>c. [c]) (\<lambda>s. (''d'', s)) (get_docs (\<lambda>c. [c]) (\<lambda>s. (''d'', s))
        (index_init \<lparr>tokens = [(''cat'', Bytes [0, 0, 255, 0, 1])],
                     docs = [(0, [1, 1], [[FNone, FStr ''Cat'', FNum 10],
                                          [FNone, FStr ''Cat'', FNum 10]])]\<rparr>) [0, 1]) 1)
       = Inr (Some [FStr ''d/Cat'', FStr ''Cat'', FNum 10])"
proof -
  let ?src = "[([''cat''], 10, [FStr ''d/Cat'', FStr ''Cat'']),
               ([''cat''], 10, [FStr ''d/Cat'', FStr ''Cat''])]"
  let ?e = "([''cat''], 10 :: int, [FNone, FStr ''Cat''])"
  have c: "create (\<lambda>c. [c]) (\<lambda>s. (''d'', s)) ?src
      = Some (Inr (2, \<lparr>tokens = [(''cat'', Bytes [0, 0, 255, 0, 1])],
                     docs = [(0, [1, 1], [[FNone, FStr ''Cat'', FNum 10],
                                          [FNone, FStr ''Cat'', FNum 10]])]\<rparr>))"
    by code_simp
  have o: "order_source (\<lambda>c. [c]) (\<lambda>s. (''d'', s)) ?src = Inr ([(10, [?e, ?e])], 1)"
    by code_simp
  have g: "gen_ordered [(10, [?e, ?e])] = [?e, ?e]" by code_simp
  have f: "to_filename (\<lambda>c. [c]) (\<lambda>s. (''d'', s)) ''Cat'' = Inr ''d/Cat''" by code_simp
  let ?self = "get_docs (\<lambda>c. [c]) (\<lambda>s. (''d'', s))
        (index_init \<lparr>tokens = [(''cat'', Bytes [0, 0, 255, 0, 1])],
                     docs = [(0, [1, 1], [[FNone, FStr ''Cat'', FNum 10],
                                          [FNone, FStr ''Cat'', FNum 10]])]\<rparr>) [0, 1]"
  from values_without_backfill [OF c o refl, of "[0, 1]"]
  have all: "\<forall>d < length [?e, ?e]. \<forall>words page_score rest.
            [?e, ?e] ! d = (words, page_score, FNone # rest) \<longrightarrow>
              index_values ?self ! d = FNone # rest @ [FNum page_score]
            \<and> (\<exists>title payload fname.
                   rest = FStr title # payload
                 \<and> to_filename (\<lambda>c. [c]) (\<lambda>s. (''d'', s)) title = Inr fname
                 \<and> fst (get_doc (\<lambda>c. [c]) (\<lambda>s. (''d'', s)) ?self (int d))
                     = Inr (Some (FStr fname # rest @ [FNum page_score])))
            \<and> index_values (snd (get_doc (\<lambda>c. [c]) (\<lambda>s. (''d'', s)) ?self (int d)))
                = index_values ?self"
    unfolding g by (elim conjE)
  have l: "1 < length [?e, ?e]" by simp
  have n: "[?e, ?e] ! 1 = ([''cat''], 10, FNone # [FStr ''Cat''])" by simp
  from all [rule_format, OF l n]
  have v: "index_values ?self ! 1 = FNone # [FStr ''Cat''] @ [FNum 10]"
    and ex: "\<exists>title payload fname.
                   [FStr ''Cat''] = FStr title # payload
                 \<and> to_filename (\<lambda>c. [c]) (\<lambda>s. (''d'', s)) title = Inr fname
                 \<and> fst (get_doc (\<lambda>c. [c]) (\<lambda>s. (''d'', s)) ?self (int 1))
                     = Inr (Some (FStr fname # [FStr ''Cat''] @ [FNum 10]))"
    by blast+
  from ex f have "fst (get_doc (\<lambda>c. [c]) (\<lambda>s. (''d'', s)) ?self (int 1))
      = Inr (Some (FStr ''d/Cat'' # [FStr ''Cat''] @ [FNum 10]))" by auto
  with v show ?thesis by simp
qed

section \<open>The pairs indexed\<close>

lemma length_docset_append:
  "length (docset_append ds d p) = (if d \<in> fst ` set ds then length ds else Suc (length ds))"
proof -
  have "length (docset_append ds d p) = length (map fst (docset_append ds d p))" by simp
  also have "\<dots> = (if d \<in> fst ` set ds then length ds else Suc (length ds))"
    unfolding keys_docset_append by simp
  finally show ?thesis .
qed

lemma keyset_docset_append: "fst ` set (docset_append ds d p) = insert d (fst ` set ds)"
proof -
  have "set (map fst (docset_append ds d p)) = insert d (set (map fst ds))"
    unfolding keys_docset_append by auto
  then show ?thesis by simp
qed

lemma idx_lookup_append:
  "idx_lookup (idx_dict_append idx w d p) w' =
     (if w' = w then docset_append (idx_lookup idx w) d p else idx_lookup idx w')"
  by (induction idx w d p rule: idx_dict_append.induct)
     (auto simp: idx_lookup_def DocSet_init_def)

lemma mu_append:
  "sum_list (map (\<lambda>e. docset_len (snd e)) (idx_dict_append idx w d p)) =
     sum_list (map (\<lambda>e. docset_len (snd e)) idx)
       + (if d \<in> fst ` set (idx_lookup idx w) then 0 else 1)"
  by (induction idx w d p rule: idx_dict_append.induct)
     (auto simp: idx_lookup_def DocSet_init_def docset_len_def length_docset_append)

lemma card_step:
  "(if w0 \<in> S then 0 else 1) + card (set words - insert w0 S) = card (set (w0 # words) - S)"
proof (cases "w0 \<in> S")
  case True
  then have eq: "set (w0 # words) - S = set words - insert w0 S" by auto
  show ?thesis unfolding eq using True by (simp only: if_True add_0_left)
next
  case False
  then have eq: "set (w0 # words) - S = insert w0 (set words - insert w0 S)" by auto
  have "card (insert w0 (set words - insert w0 S)) = Suc (card (set words - insert w0 S))"
    by (rule card_insert_disjoint) simp_all
  then show ?thesis unfolding eq using False by (simp only: if_False)
qed

lemma add_words_mu:
  assumes "\<forall>w. d \<in> fst ` set (idx_lookup idx w) \<longleftrightarrow> w \<in> S"
  shows "sum_list (map (\<lambda>e. docset_len (snd e)) (add_words idx d i words))
           = sum_list (map (\<lambda>e. docset_len (snd e)) idx) + card (set words - S)
       \<and> (\<forall>w. fst ` set (idx_lookup (add_words idx d i words) w)
                \<subseteq> insert d (fst ` set (idx_lookup idx w)))"
  using assms
proof (induction words arbitrary: idx i S)
  case Nil
  show ?case by (simp add: subset_insertI)
next
  case (Cons w0 words)
  let ?idx1 = "idx_dict_append idx w0 d (int i)"
  let ?mu = "\<lambda>x. sum_list (map (\<lambda>e. docset_len (snd e)) x)"
  have k1: "fst ` set (idx_lookup ?idx1 w) =
      (if w = w0 then insert d (fst ` set (idx_lookup idx w)) else fst ` set (idx_lookup idx w))" for w
    by (simp add: idx_lookup_append keyset_docset_append)
  have inv1: "\<forall>w. d \<in> fst ` set (idx_lookup ?idx1 w) \<longleftrightarrow> w \<in> insert w0 S"
  proof
    fix w
    show "d \<in> fst ` set (idx_lookup ?idx1 w) \<longleftrightarrow> w \<in> insert w0 S"
      unfolding k1 using Cons.prems by (cases "w = w0") simp_all
  qed
  have "d \<in> fst ` set (idx_lookup idx w0) \<longleftrightarrow> w0 \<in> S" using Cons.prems by blast
  then have m1: "?mu ?idx1 = ?mu idx + (if w0 \<in> S then 0 else 1)"
    by (simp only: mu_append)
  from Cons.IH [OF inv1, of "Suc i"]
  have IH1: "?mu (add_words ?idx1 d (Suc i) words) = ?mu ?idx1 + card (set words - insert w0 S)"
    and IH2: "\<forall>w. fst ` set (idx_lookup (add_words ?idx1 d (Suc i) words) w)
                \<subseteq> insert d (fst ` set (idx_lookup ?idx1 w))" by blast+
  have "?mu (add_words idx d i (w0 # words)) = ?mu (add_words ?idx1 d (Suc i) words)" by simp
  also have "\<dots> = ?mu ?idx1 + card (set words - insert w0 S)" by (rule IH1)
  also have "\<dots> = ?mu idx + ((if w0 \<in> S then 0 else 1) + card (set words - insert w0 S))"
    by (simp only: m1 add.assoc)
  also have "\<dots> = ?mu idx + card (set (w0 # words) - S)" by (simp only: card_step)
  finally have A: "?mu (add_words idx d i (w0 # words)) = ?mu idx + card (set (w0 # words) - S)" .
  have B: "\<forall>w. fst ` set (idx_lookup (add_words idx d i (w0 # words)) w)
                \<subseteq> insert d (fst ` set (idx_lookup idx w))"
  proof
    fix w
    have "fst ` set (idx_lookup (add_words ?idx1 d (Suc i) words) w)
            \<subseteq> insert d (fst ` set (idx_lookup ?idx1 w))" using IH2 by blast
    also have "\<dots> \<subseteq> insert d (fst ` set (idx_lookup idx w))"
      unfolding k1 by (cases "w = w0") auto
    finally show "fst ` set (idx_lookup (add_words idx d i (w0 # words)) w)
                \<subseteq> insert d (fst ` set (idx_lookup idx w))" by simp
  qed
  from A B show ?case by (rule conjI)
qed

lemma add_docs_loop_mu:
  assumes "docs_inv rows t database"
    and "\<forall>w. \<forall>k\<in>fst ` set (idx_lookup idx w). k < int (length rows)"
    and "add_docs_loop es idx t database = Inr (idx', t', database')"
  shows "sum_list (map (\<lambda>e. docset_len (snd e)) idx')
           = sum_list (map (\<lambda>e. docset_len (snd e)) idx)
             + sum_list (map (\<lambda>e. card (set (fst e))) es)"
  using assms
proof (induction es arbitrary: rows idx t database)
  case Nil
  then show ?case by simp
next
  case (Cons e es)
  obtain words page_score data where e: "e = (words, page_score, data)" by (cases e)
  from Cons.prems(3) obtain docid t1 database1 where
    app: "compressed_append (length words, data @ [FNum page_score]) t database = Inr (docid, t1, database1)"
    and rest: "add_docs_loop es (add_words idx docid 0 words) t1 database1 = Inr (idx', t', database')"
    unfolding e by (auto split: sum.splits)
  from compressed_append_shape [OF Cons.prems(1) app]
  have dk: "docid = int (length rows)"
    and inv1: "docs_inv (rows @ [(length words, data @ [FNum page_score])]) t1 database1"
    by simp_all
  have fresh: "\<forall>w. docid \<in> fst ` set (idx_lookup idx w) \<longleftrightarrow> w \<in> {}"
  proof
    fix w
    have "docid \<notin> fst ` set (idx_lookup idx w)"
    proof
      assume "docid \<in> fst ` set (idx_lookup idx w)"
      with Cons.prems(2) have "docid < int (length rows)" by blast
      with dk show False by simp
    qed
    then show "docid \<in> fst ` set (idx_lookup idx w) \<longleftrightarrow> w \<in> {}" by simp
  qed
  from add_words_mu [OF fresh, of 0 words]
  have m: "sum_list (map (\<lambda>e. docset_len (snd e)) (add_words idx docid 0 words))
           = sum_list (map (\<lambda>e. docset_len (snd e)) idx) + card (set words)"
    and ks: "\<forall>w. fst ` set (idx_lookup (add_words idx docid 0 words) w)
                \<subseteq> insert docid (fst ` set (idx_lookup idx w))" by simp_all
  have below: "\<forall>w. \<forall>k\<in>fst ` set (idx_lookup (add_words idx docid 0 words) w).
      k < int (length (rows @ [(length words, data @ [FNum page_score])]))"
  proof (intro allI ballI)
    fix w k assume "k \<in> fst ` set (idx_lookup (add_words idx docid 0 words) w)"
    with ks have "k = docid \<or> k \<in> fst ` set (idx_lookup idx w)" by blast
    then show "k < int (length (rows @ [(length words, data @ [FNum page_score])]))"
    proof
      assume "k = docid"
      then show ?thesis using dk by simp
    next
      assume "k \<in> fst ` set (idx_lookup idx w)"
      with Cons.prems(2) have "k < int (length rows)" by blast
      then show ?thesis by simp
    qed
  qed
  from Cons.IH [OF inv1 below rest] m show ?case by (simp add: e)
qed

lemma add_docs_keys_mu:
  assumes "add_docs_keys es create_database = Inr (idx_dict, database)"
  shows "sum_list (map (\<lambda>e. docset_len (snd e)) idx_dict) = sum_list (map (\<lambda>e. card (set (fst e))) es)"
proof -
  from assms obtain t database1 where
    loop: "add_docs_loop es [] sqlmany_init create_database = Inr (idx_dict, t, database1)"
    unfolding add_docs_keys_def by (auto split: sum.splits)
  have "\<forall>w. \<forall>k\<in>fst ` set (idx_lookup [] w). k < int (length ([] :: (nat \<times> doc_data) list))"
    by (simp add: idx_lookup_def)
  from add_docs_loop_mu [OF docs_inv_init this loop] show ?thesis by simp
qed

lemma card_pairs:
  "card (SIGMA docid:{..<length es}. set (fst (es ! docid))) = sum_list (map (\<lambda>e. card (set (fst e))) es)"
proof -
  have "card (SIGMA docid:{..<length es}. set (fst (es ! docid)))
      = (\<Sum>docid\<in>{..<length es}. card (set (fst (es ! docid))))"
    by (rule card_SigmaI) simp_all
  also have "\<dots> = (\<Sum>i = 0..<length (map (\<lambda>e. card (set (fst e))) es). map (\<lambda>e. card (set (fst e))) es ! i)"
    by (intro sum.cong) auto
  also have "\<dots> = sum_list (map (\<lambda>e. card (set (fst e))) es)"
    by (rule sum_list_sum_nth [symmetric])
  finally show ?thesis .
qed

text \<open>
  Claim C8, as amended. The value \<open>create\<close> returns is the number of distinct pairs of
  a document and a word of its word list, over the documents emitted; it is the sum,
  over the source, of the number of distinct words of each entry. A word that occurs
  several times in one document counts once for it, since the count adds, for each
  word, the number of docids of its DocSet and not the number of positions.
\<close>

theorem create_returns_pairs_indexed:
  assumes "create upper get_path_file source = Some (Inr (indexed, database))"
    and "order_source upper get_path_file source = Inr (ordered_source, quantity)"
  shows "indexed = card (SIGMA docid:{..<length (gen_ordered ordered_source)}.
                          set (fst (gen_ordered ordered_source ! docid)))
       \<and> indexed = sum_list (map (\<lambda>(words, page_score, data). card (set words)) source)"
proof -
  from built_index [OF assms(1)] assms(2) obtain idx_dict database1 where
    d: "add_docs_keys (gen_ordered ordered_source) create_database = Inr (idx_dict, database1)"
    and i: "indexed = sum_list (map (\<lambda>e. docset_len (snd e)) idx_dict)"
    and ms: "mset (gen_ordered ordered_source) = mset (map (norm_entry upper get_path_file) source)"
    by auto
  let ?es = "gen_ordered ordered_source"
  have a: "indexed = sum_list (map (\<lambda>e. card (set (fst e))) ?es)"
    unfolding i by (rule add_docs_keys_mu [OF d])
  have "sum_list (map (\<lambda>e. card (set (fst e))) ?es)
      = sum_mset (image_mset (\<lambda>e. card (set (fst e))) (mset ?es))"
    by (simp add: sum_mset_sum_list [symmetric])
  also have "\<dots> = sum_mset (image_mset (\<lambda>e. card (set (fst e))) (mset source))"
    unfolding ms by (simp add: image_mset.compositionality comp_def norm_entry_words)
  also have "\<dots> = sum_list (map (\<lambda>e. card (set (fst e))) source)"
    by (simp add: sum_mset_sum_list [symmetric])
  finally have b: "indexed = sum_list (map (\<lambda>e. card (set (fst e))) source)" using a by simp
  have "(\<lambda>(words, page_score, data). card (set words)) = (\<lambda>e :: source_entry. card (set (fst e)))"
    by (simp add: fun_eq_iff)
  then show ?thesis using a b by (simp add: card_pairs)
qed

theorem create_returns_pairs_indexed_witness:
  "create (\<lambda>c. [c]) (\<lambda>s. ([], s)) [([''a'', ''a'', ''b''], 1, [FNone, FStr ''T''])]
     = Some (Inr (2, \<lparr>tokens = [(''a'', Bytes [0, 1, 255, 0, 0]), (''b'', Bytes [2, 255, 0])],
                       docs = [(0, [3], [[FNone, FStr ''T'', FNum 1]])]\<rparr>))
   \<and> sum_list (map (\<lambda>(words, page_score, data). card (set words))
         [([''a'', ''a'', ''b''], 1 :: int, [FNone, FStr ''T''])]) = 2"
proof -
  have c: "create (\<lambda>c. [c]) (\<lambda>s. ([], s)) [([''a'', ''a'', ''b''], 1, [FNone, FStr ''T''])]
     = Some (Inr (2, \<lparr>tokens = [(''a'', Bytes [0, 1, 255, 0, 0]), (''b'', Bytes [2, 255, 0])],
                       docs = [(0, [3], [[FNone, FStr ''T'', FNum 1]])]\<rparr>))"
    by code_simp
  have o: "order_source (\<lambda>c. [c]) (\<lambda>s. ([], s)) [([''a'', ''a'', ''b''], 1, [FNone, FStr ''T''])]
     = Inr ([(1, [([''a'', ''a'', ''b''], 1, [FNone, FStr ''T''])])], 0)"
    by code_simp
  from create_returns_pairs_indexed [OF c o]
  have "2 = sum_list (map (\<lambda>(words, page_score, data). card (set words))
         [([''a'', ''a'', ''b''], 1 :: int, [FNone, FStr ''T''])])"
    by (rule conjunct2)
  then show ?thesis using c by simp
qed

text \<open>A word that occurs twice in one document is counted once.\<close>

lemma repeated_word_counts_once:
  "create (\<lambda>c. [c]) (\<lambda>s. ([], s)) [([''a'', ''a''], 1, [FNone, FStr ''T''])]
     = Some (Inr (1, \<lparr>tokens = [(''a'', Bytes [0, 1, 255, 0, 0])],
                       docs = [(0, [2], [[FNone, FStr ''T'', FNum 1]])]\<rparr>))"
  by code_simp

lemma repeated_word_order:
  "order_source (\<lambda>c. [c]) (\<lambda>s. ([], s)) [([''a'', ''a''], 1, [FNone, FStr ''T''])]
     = Inr ([(1, [([''a'', ''a''], 1, [FNone, FStr ''T''])])], 0)"
  by code_simp

lemma repeated_word_emitted:
  "gen_ordered [(1, [([''a'', ''a''], 1, [FNone, FStr ''T''])])]
     = [([''a'', ''a''], 1, [FNone, FStr ''T''])]"
  by code_simp

lemma repeated_word_accumulated:
  "add_docs_keys [([''a'', ''a''], 1, [FNone, FStr ''T''])] create_database
     = Inr ([(''a'', [(0, [0, 1])])],
            \<lparr>tokens = [], docs = [(0, [2], [[FNone, FStr ''T'', FNum 1]])]\<rparr>)"
  by code_simp

text \<open>
  The claim as first stated, that the value is the number of occurrence pairs
  accumulated during the build, fails on a document in which a word occurs twice: two
  pairs, \<open>(0, 0)\<close> and \<open>(0, 1)\<close>, are appended to the DocSet of the word and stored,
  and \<open>create\<close> returns 1.
\<close>

theorem create_counts_occurrences_counterexample:
  "order_source (\<lambda>c. [c]) (\<lambda>s. ([], s)) [([''a'', ''a''], 1, [FNone, FStr ''T''])]
     = Inr ([(1, [([''a'', ''a''], 1, [FNone, FStr ''T''])])], 0)
   \<and> gen_ordered [(1, [([''a'', ''a''], 1, [FNone, FStr ''T''])])]
     = [([''a'', ''a''], 1, [FNone, FStr ''T''])]
   \<and> add_docs_keys [([''a'', ''a''], 1, [FNone, FStr ''T''])] create_database
     = Inr ([(''a'', [(0, [0, 1])])],
            \<lparr>tokens = [], docs = [(0, [2], [[FNone, FStr ''T'', FNum 1]])]\<rparr>)
   \<and> docset_pairs [(0, [0, 1])] = [(0, 0), (0, 1)]
   \<and> create (\<lambda>c. [c]) (\<lambda>s. ([], s)) [([''a'', ''a''], 1, [FNone, FStr ''T''])]
     = Some (Inr (1, \<lparr>tokens = [(''a'', Bytes [0, 1, 255, 0, 0])],
                       docs = [(0, [2], [[FNone, FStr ''T'', FNum 1]])]\<rparr>))
   \<and> (1 :: nat) \<noteq> length (docset_pairs [(0, [0, 1])])"
  using repeated_word_order repeated_word_emitted repeated_word_accumulated
    repeated_word_counts_once
  by (simp add: docset_pairs_def)

section \<open>A build that returns\<close>

lemma compressed_persist_returns:
  assumes "list_all (\<lambda>x. fst x \<le> 255) (sm_buffer self)"
    and "(sm_count self - 1) div 512 \<notin> fst ` set (docs database)"
  shows "\<exists>database'. compressed_persist self database = Inr database'"
proof -
  have "list_all (\<lambda>x. 0 \<le> x \<and> x \<le> 255) (map (\<lambda>(word_quant, data). int word_quant) (sm_buffer self))"
    using assms(1) by (simp add: list_all_iff case_prod_unfold)
  then have "array_B (map (\<lambda>(word_quant, data). int word_quant) (sm_buffer self))
      = Inr (map (\<lambda>(word_quant, data). int word_quant) (sm_buffer self))"
    by (simp add: array_B_def)
  then show ?thesis using assms(2)
    by (simp add: compressed_persist_def insert_docs_def PAGE_SIZE_def Let_def)
qed

lemma docs_inv_fresh:
  assumes "docs_inv rows t database"
  shows "int (length rows div 512) \<notin> fst ` set (docs database)"
proof -
  have "docs database = map (page_row rows) [0 ..< length rows div 512]"
    using assms by (simp add: docs_inv_def)
  then have "fst ` set (docs database) = int ` {0 ..< length rows div 512}"
    by (auto simp: page_row_def image_iff)
  then show ?thesis by auto
qed

lemma compressed_append_returns:
  assumes inv: "docs_inv rows t database"
    and le: "list_all (\<lambda>x. fst x \<le> 255) (rows @ [r])"
  shows "\<exists>docid t' database'. compressed_append r t database = Inr (docid, t', database')"
proof (cases "(sm_count t + 1) mod 512 = 0")
  case True
  let ?self1 = "t\<lparr>sm_buffer := sm_buffer t @ [r], sm_count := sm_count t + 1\<rparr>"
  have cnt: "sm_count t = int (length rows)" and buf: "sm_buffer t = drop (512 * (length rows div 512)) rows"
    using inv by (simp_all add: docs_inv_def)
  have "set (sm_buffer t) \<subseteq> set rows" unfolding buf by (rule set_drop_subset)
  then have b: "list_all (\<lambda>x. fst x \<le> 255) (sm_buffer ?self1)"
    using le by (auto simp: list_all_iff)
  have "(sm_count ?self1 - 1) div 512 = int (length rows div 512)"
    by (simp add: cnt zdiv_int)
  then have "(sm_count ?self1 - 1) div 512 \<notin> fst ` set (docs database)"
    using docs_inv_fresh [OF inv] by simp
  from compressed_persist_returns [OF b this] obtain database' where
    "compressed_persist ?self1 database = Inr database'" ..
  then show ?thesis using True by (simp add: compressed_append_def PAGE_SIZE_def Let_def)
next
  case False
  from compressed_append_part [OF False] show ?thesis by blast
qed

lemma add_docs_loop_returns:
  assumes "docs_inv rows t database"
    and "list_all (\<lambda>x. fst x \<le> 255) rows"
    and "list_all (\<lambda>e. length (fst e) \<le> 255) es"
  shows "\<exists>idx' t' database'. add_docs_loop es idx t database = Inr (idx', t', database')"
  using assms
proof (induction es arbitrary: rows idx t database)
  case Nil
  then show ?case by simp
next
  case (Cons e es)
  obtain words page_score data where e: "e = (words, page_score, data)" by (cases e)
  let ?r = "(length words, data @ [FNum page_score])"
  have le: "list_all (\<lambda>x. fst x \<le> 255) (rows @ [?r])"
    using Cons.prems(2,3) by (simp add: e)
  from compressed_append_returns [OF Cons.prems(1) le] obtain docid t1 database1 where
    app: "compressed_append ?r t database = Inr (docid, t1, database1)" by blast
  from compressed_append_shape [OF Cons.prems(1) app]
  have inv1: "docs_inv (rows @ [?r]) t1 database1" by simp
  from Cons.prems(3) have "list_all (\<lambda>e. length (fst e) \<le> 255) es" by simp
  from Cons.IH [OF inv1 le this, of "add_words idx docid 0 words"] app
  show ?case by (simp add: e)
qed

lemma compressed_finish_returns:
  assumes inv: "docs_inv rows t database"
    and le: "list_all (\<lambda>x. fst x \<le> 255) rows"
  shows "\<exists>database'. compressed_finish t database = Inr database'"
proof (cases "sm_buffer t = []")
  case True
  then show ?thesis by (simp add: compressed_finish_def)
next
  case False
  have cnt: "sm_count t = int (length rows)" and buf: "sm_buffer t = drop (512 * (length rows div 512)) rows"
    using inv by (simp_all add: docs_inv_def)
  have "length (sm_buffer t) = length rows mod 512" unfolding buf by (rule length_last_chunk)
  moreover from False have "length (sm_buffer t) \<noteq> 0" by simp
  ultimately have nz: "length rows mod 512 \<noteq> 0" by simp
  have "set (sm_buffer t) \<subseteq> set rows" unfolding buf by (rule set_drop_subset)
  then have b: "list_all (\<lambda>x. fst x \<le> 255) (sm_buffer t)"
    using le by (auto simp: list_all_iff)
  have "(sm_count t - 1) div 512 \<notin> fst ` set (docs database)"
    unfolding cnt last_page_id [OF nz] by (rule docs_inv_fresh [OF inv])
  from compressed_persist_returns [OF b this] False show ?thesis
    by (simp add: compressed_finish_def)
qed

lemma add_docs_keys_returns:
  assumes "list_all (\<lambda>e. length (fst e) \<le> 255) es"
  shows "\<exists>idx_dict database. add_docs_keys es create_database = Inr (idx_dict, database)"
proof -
  have le0: "list_all (\<lambda>x. fst x \<le> 255) ([] :: (nat \<times> doc_data) list)" by simp
  from add_docs_loop_returns [OF docs_inv_init le0 assms, of "[]"] obtain idx t database1 where
    loop: "add_docs_loop es [] sqlmany_init create_database = Inr (idx, t, database1)" by blast
  from add_docs_loop_shape [OF docs_inv_init loop]
  have inv: "docs_inv (map row_of es) t database1" by simp
  have "list_all (\<lambda>x. fst x \<le> 255) (map row_of es)"
    using assms by (simp add: list_all_iff row_of_def case_prod_unfold)
  from compressed_finish_returns [OF inv this] loop show ?thesis
    by (auto simp: add_docs_keys_def)
qed

lemma set_pairs_append:
  "set (docset_pairs (docset_append ds d p)) = insert (d, p) (set (docset_pairs ds))"
proof -
  have "set_mset (mset (docset_pairs (docset_append ds d p)))
      = set_mset (add_mset (d, p) (mset (docset_pairs ds)))"
    by (simp only: mset_pairs_append)
  then show ?thesis by simp
qed

lemma pairs_in_range_append:
  "pairs_in_range ds \<Longrightarrow> 0 \<le> d \<Longrightarrow> 0 \<le> p \<Longrightarrow> p < 255 \<Longrightarrow>
   pairs_in_range (docset_append ds d p)"
  by (simp add: pairs_in_range_def list_all_iff set_pairs_append)

lemma pairs_in_range_init: "pairs_in_range DocSet_init"
  by (simp add: pairs_in_range_def DocSet_init_def docset_pairs_def)

lemma idx_dict_append_range:
  "list_all (\<lambda>e. pairs_in_range (snd e)) idx \<Longrightarrow> 0 \<le> d \<Longrightarrow> 0 \<le> p \<Longrightarrow> p < 255 \<Longrightarrow>
   list_all (\<lambda>e. pairs_in_range (snd e)) (idx_dict_append idx w d p)"
  by (induction idx w d p rule: idx_dict_append.induct)
     (simp_all add: pairs_in_range_append pairs_in_range_init)

lemma add_words_range:
  "list_all (\<lambda>e. pairs_in_range (snd e)) idx \<Longrightarrow> 0 \<le> d \<Longrightarrow> i + length words \<le> 255 \<Longrightarrow>
   list_all (\<lambda>e. pairs_in_range (snd e)) (add_words idx d i words)"
proof (induction words arbitrary: idx i)
  case Nil
  then show ?case by simp
next
  case (Cons w0 words)
  from Cons.prems have "list_all (\<lambda>e. pairs_in_range (snd e)) (idx_dict_append idx w0 d (int i))"
    by (intro idx_dict_append_range) simp_all
  from Cons.IH [OF this Cons.prems(2), of "Suc i"] Cons.prems(3) show ?case by simp
qed

lemma add_docs_loop_range:
  assumes "docs_inv rows t database"
    and "list_all (\<lambda>e. pairs_in_range (snd e)) idx"
    and "list_all (\<lambda>e. length (fst e) \<le> 255) es"
    and "add_docs_loop es idx t database = Inr (idx', t', database')"
  shows "list_all (\<lambda>e. pairs_in_range (snd e)) idx'"
  using assms
proof (induction es arbitrary: rows idx t database)
  case Nil
  then show ?case by simp
next
  case (Cons e es)
  obtain words page_score data where e: "e = (words, page_score, data)" by (cases e)
  from Cons.prems(4) obtain docid t1 database1 where
    app: "compressed_append (length words, data @ [FNum page_score]) t database = Inr (docid, t1, database1)"
    and rest: "add_docs_loop es (add_words idx docid 0 words) t1 database1 = Inr (idx', t', database')"
    unfolding e by (auto split: sum.splits)
  from compressed_append_shape [OF Cons.prems(1) app]
  have dk: "docid = int (length rows)"
    and inv1: "docs_inv (rows @ [(length words, data @ [FNum page_score])]) t1 database1"
    by simp_all
  from Cons.prems(3) have lw: "0 + length words \<le> 255"
    and les: "list_all (\<lambda>e. length (fst e) \<le> 255) es" by (simp_all add: e)
  have "0 \<le> docid" using dk by simp
  from add_words_range [OF Cons.prems(2) this lw]
  have "list_all (\<lambda>e. pairs_in_range (snd e)) (add_words idx docid 0 words)" .
  from Cons.IH [OF inv1 this les rest] show ?case .
qed

lemma encodable_in_range: "pairs_in_range ds \<Longrightarrow> encodable ds"
proof (cases "ds = []")
  case True
  then show ?thesis by (simp add: encodable_def encode_def)
next
  case False
  assume "pairs_in_range ds"
  then have a: "\<forall>q\<in>set (docset_pairs ds). 0 \<le> fst q"
    and b: "\<forall>q\<in>set (docset_pairs ds). 0 \<le> snd q \<and> snd q < 255"
    by (simp_all add: pairs_in_range_def list_all_iff)
  from encode_valid [OF False a b] show ?thesis unfolding encodable_def by blast
qed

lemma create_returns:
  assumes ok: "list_all entry_ok source"
    and le: "list_all (\<lambda>e. length (fst e) \<le> 255) source"
  shows "\<exists>indexed database. create upper get_path_file source = Some (Inr (indexed, database))"
proof -
  from order_source_returns [OF ok] obtain os quantity where
    o: "order_source upper get_path_file source = Inr (os, quantity)" by blast
  from order_source_emitted [OF o]
  have ms: "mset (gen_ordered os) = mset (map (norm_entry upper get_path_file) source)" by simp
  have "set (gen_ordered os) = norm_entry upper get_path_file ` set source"
    using mset_eq_setD [OF ms] by simp
  with le have le': "list_all (\<lambda>e. length (fst e) \<le> 255) (gen_ordered os)"
    by (auto simp: list_all_iff norm_entry_words)
  from add_docs_keys_returns [OF le'] obtain idx_dict database1 where
    d: "add_docs_keys (gen_ordered os) create_database = Inr (idx_dict, database1)" by blast
  then obtain t database0 where
    loop: "add_docs_loop (gen_ordered os) [] sqlmany_init create_database = Inr (idx_dict, t, database0)"
    unfolding add_docs_keys_def by (auto split: sum.splits)
  have "list_all (\<lambda>e. pairs_in_range (snd e)) ([] :: (string \<times> DocSet) list)" by simp
  from add_docs_loop_range [OF docs_inv_init this le' loop]
  have "\<forall>e\<in>set idx_dict. encodable (snd e)"
    by (auto simp: list_all_iff encodable_in_range)
  from add_tokens_to_db_returns [OF this, of database1] o d show ?thesis
    by (auto simp: create_def)
qed

section \<open>The pagination boundary\<close>

text \<open>
  Claim C4. A source of exactly \<open>PAGE_SIZE + 1 = 513\<close> entries that \<open>order_source\<close>
  accepts, none with more than 255 words, builds: the documents table has exactly the
  two pages 0 and 1, of 512 records and of one; \<open>get_doc(511)\<close> is the record at
  offset 511 of page 0 and \<open>get_doc(512)\<close> the record at offset 0 of page 1 (with the
  filename filled in); and \<open>len()\<close> is 513.
\<close>

theorem pagination_boundary:
  assumes len: "int (length source) = PAGE_SIZE + 1"
    and ok: "list_all entry_ok source"
    and le: "list_all (\<lambda>e. length (fst e) \<le> 255) source"
  shows "\<exists>indexed database word_quants0 data0 word_quants1 data1.
           create upper get_path_file source = Some (Inr (indexed, database))
         \<and> docs database = [(0, word_quants0, data0), (1, word_quants1, data1)]
         \<and> int (length data0) = PAGE_SIZE \<and> length data1 = 1
         \<and> fst (get_doc upper get_path_file (index_init database) (PAGE_SIZE - 1))
             = Inr (Some (backfilled upper get_path_file (data0 ! 511)))
         \<and> fst (get_doc upper get_path_file (index_init database) PAGE_SIZE)
             = Inr (Some (backfilled upper get_path_file (data1 ! 0)))
         \<and> index_len (index_init database) = Inr (PAGE_SIZE + 1)"
proof -
  from create_returns [OF ok le] obtain indexed database where
    c: "create upper get_path_file source = Some (Inr (indexed, database))" by blast
  from built_index [OF c] obtain os where
    dcs: "docs database = map (page_row (map row_of (gen_ordered os)))
                              [0 ..< (length (gen_ordered os) + 511) div 512]"
    and ms: "mset (gen_ordered os) = mset (map (norm_entry upper get_path_file) source)"
    and eok: "list_all entry_ok (gen_ordered os)" by blast
  let ?es = "gen_ordered os" and ?rows = "map row_of (gen_ordered os)"
  let ?self = "index_init database"
  have n: "length source = 513" using len by (simp add: PAGE_SIZE_def)
  have les: "length ?es = 513" using built_length [OF ms] n by simp
  have lr: "length ?rows = 513" using les by simp
  have np: "(length ?rows + 511) div 512 = 2" unfolding lr by simp
  have upt2: "[0 ..< 2] = [0, Suc 0]" by (simp add: upt_rec)
  have ok0: "cache_ok upper get_path_file ?self" by (rule cache_ok_init)
  have dcs': "docs (db ?self) = map (page_row ?rows) [0 ..< (length ?rows + 511) div 512]"
    using dcs by (simp add: index_init_def)
  let ?c0 = "take 512 ?rows" and ?c1 = "take 512 (drop 512 ?rows)"
  let ?wq = "\<lambda>chunk :: (nat \<times> doc_data) list. map (\<lambda>(word_quant, data). int word_quant) chunk"
  let ?dt = "\<lambda>chunk :: (nat \<times> doc_data) list. map (\<lambda>(word_quant, data). data) chunk"
  have d: "docs database = [(0, ?wq ?c0, ?dt ?c0), (1, ?wq ?c1, ?dt ?c1)]"
    using dcs' unfolding np upt2 by (simp add: page_row_def index_init_def)
  have l0: "length (?dt ?c0) = 512" using lr by simp
  have l1: "length (?dt ?c1) = 1" using lr by simp
  have n0: "?dt ?c0 ! 511 = snd (?rows ! 511)"
    using lr by (simp add: case_prod_unfold)
  have n1: "?dt ?c1 ! 0 = snd (?rows ! 512)"
    using lr by (simp add: case_prod_unfold)
  have g: "fst (get_doc upper get_path_file ?self (int k))
      = Inr (Some (backfilled upper get_path_file (snd (?rows ! k))))" if "k < 513" for k
  proof -
    from that have kl: "k < length ?rows" using lr by simp
    from eok kl have "entry_ok (?es ! k)" by (simp add: list_all_length)
    from entry_ok_shape [OF this] obtain words page_score f0 title payload where
      e: "?es ! k = (words, page_score, f0 # FStr title # payload)" and t: "title \<noteq> []" by blast
    have "snd (?rows ! k) = f0 # FStr title # (payload @ [FNum page_score])"
      using kl e by (simp add: row_of_def)
    from built_get_doc [OF ok0 dcs' kl this t] show ?thesis .
  qed
  have g511: "fst (get_doc upper get_path_file ?self (PAGE_SIZE - 1))
      = Inr (Some (backfilled upper get_path_file (?dt ?c0 ! 511)))"
    unfolding n0 using g [of 511] by (simp add: PAGE_SIZE_def)
  have g512: "fst (get_doc upper get_path_file ?self PAGE_SIZE)
      = Inr (Some (backfilled upper get_path_file (?dt ?c1 ! 0)))"
    unfolding n1 using g [of 512] by (simp add: PAGE_SIZE_def)
  have "?rows \<noteq> []" using lr by auto
  from built_len [OF dcs' this] have il: "index_len ?self = Inr (PAGE_SIZE + 1)"
    unfolding lr by (simp add: PAGE_SIZE_def)
  have l0': "int (length (?dt ?c0)) = PAGE_SIZE" using l0 by (simp add: PAGE_SIZE_def)
  from c d l0' l1 g511 g512 il show ?thesis by blast
qed

theorem pagination_boundary_witness:
  "\<exists>indexed database word_quants0 data0 word_quants1 data1.
      create (\<lambda>c. [c]) (\<lambda>s. ([], s)) (replicate 513 ([''w''], 0, [FNone, FStr ''T'']))
        = Some (Inr (indexed, database))
      \<and> docs database = [(0, word_quants0, data0), (1, word_quants1, data1)]
      \<and> length data0 = 512 \<and> length data1 = 1
      \<and> index_len (index_init database) = Inr 513"
proof -
  have a: "int (length (replicate 513 ([''w''], 0 :: int, [FNone, FStr ''T'']))) = PAGE_SIZE + 1"
    by (simp add: PAGE_SIZE_def)
  have b: "list_all entry_ok (replicate 513 ([''w''], 0, [FNone, FStr ''T'']))"
    by (simp add: list_all_iff)
  have c: "list_all (\<lambda>e. length (fst e) \<le> 255) (replicate 513 ([''w''], 0 :: int, [FNone, FStr ''T'']))"
    by (simp add: list_all_iff)
  from pagination_boundary [OF a b c, of "\<lambda>c. [c]" "\<lambda>s. ([], s)"]
  show ?thesis by (auto simp: PAGE_SIZE_def)
qed

end
